theory Spec2Isabelle
  imports Complex_Main
begin

section \<open>JavaScript values used by the search tool\<close>

text \<open>
  The two servers of the repository (the standalone server of
  \<^verbatim>\<open>mcp-server/src/index.ts\<close> and the extension-integrated class
  \<^verbatim>\<open>AngelscriptMcpServer\<close>) receive untyped tool arguments. A
  JavaScript number
  is a finite value, one of the two infinities, or NaN; finite doubles are modelled as
  rationals (floor, minimum and maximum of doubles are exact). Strings are lists of
  characters with code units below 256.
\<close>

datatype jsnum = JFin rat | JPosInf | JNegInf | JNaN

datatype jsval =
    JUndefined
  | JNull
  | JBool bool
  | JNum jsnum
  | JStr string
  | JArr "jsval list"
  | JObj "(string \<times> jsval) list"

type_synonym exn = string

text \<open>\<^verbatim>\<open>typeof v\<close>.\<close>

fun typeof :: "jsval \<Rightarrow> string" where
  "typeof JUndefined = ''undefined''"
| "typeof JNull = ''object''"
| "typeof (JBool b) = ''boolean''"
| "typeof (JNum n) = ''number''"
| "typeof (JStr s) = ''string''"
| "typeof (JArr vs) = ''object''"
| "typeof (JObj kvs) = ''object''"

text \<open>
  Truthiness, as tested by \<^verbatim>\<open>if (v)\<close> and
  \<^verbatim>\<open>!v\<close>.
\<close>

fun truthy :: "jsval \<Rightarrow> bool" where
  "truthy JUndefined = False"
| "truthy JNull = False"
| "truthy (JBool b) = b"
| "truthy (JNum (JFin r)) = (r \<noteq> 0)"
| "truthy (JNum JNaN) = False"
| "truthy (JNum n) = True"
| "truthy (JStr s) = (s \<noteq> [])"
| "truthy (JArr vs) = True"
| "truthy (JObj kvs) = True"

text \<open>
  \<^verbatim>\<open>v ?? undefined\<close>: null and undefined both become undefined.
\<close>

fun or_undefined :: "jsval \<Rightarrow> jsval" where
  "or_undefined JNull = JUndefined"
| "or_undefined v = v"

text \<open>
  \<^verbatim>\<open>Math.floor\<close>, \<^verbatim>\<open>Math.max\<close> and
  \<^verbatim>\<open>Math.min\<close>: NaN is contagious.
\<close>

fun Math_floor :: "jsnum \<Rightarrow> jsnum" where
  "Math_floor (JFin r) = JFin (of_int \<lfloor>r\<rfloor>)"
| "Math_floor n = n"

fun Math_max :: "jsnum \<Rightarrow> jsnum \<Rightarrow> jsnum" where
  "Math_max JNaN b = JNaN"
| "Math_max a JNaN = JNaN"
| "Math_max JPosInf b = JPosInf"
| "Math_max a JPosInf = JPosInf"
| "Math_max JNegInf b = b"
| "Math_max a JNegInf = a"
| "Math_max (JFin x) (JFin y) = JFin (max x y)"

fun Math_min :: "jsnum \<Rightarrow> jsnum \<Rightarrow> jsnum" where
  "Math_min JNaN b = JNaN"
| "Math_min a JNaN = JNaN"
| "Math_min JNegInf b = JNegInf"
| "Math_min a JNegInf = JNegInf"
| "Math_min JPosInf b = b"
| "Math_min a JPosInf = a"
| "Math_min (JFin x) (JFin y) = JFin (min x y)"

text \<open>
  \<^verbatim>\<open>String.prototype.trim\<close>: white space and line terminators are
  removed from both
  ends (tab, line feed, vertical tab, form feed, carriage return, space, no-break space).
\<close>

definition is_ws :: "char \<Rightarrow> bool" where
  "is_ws c = (of_char c \<in> {9, 10, 11, 12, 13, 32, 160 :: nat})"

definition trim :: "string \<Rightarrow> string" where
  "trim s = rev (dropWhile is_ws (rev (dropWhile is_ws s)))"

text \<open>
  \<^verbatim>\<open>xs.slice(0, end)\<close>: the end is converted to an integer (NaN to
  0, truncation
  towards zero), a negative end counts from the back, and the result is cut to the
  length of the array.
\<close>

fun slice0 :: "'a list \<Rightarrow> jsnum \<Rightarrow> 'a list" where
  "slice0 xs JNaN = []"
| "slice0 xs JNegInf = []"
| "slice0 xs JPosInf = xs"
| "slice0 xs (JFin r) =
     (let k = (if 0 \<le> r then \<lfloor>r\<rfloor> else \<lceil>r\<rceil>)
      in if k < 0 then take (nat (max (int (length xs) + k) 0)) xs
         else take (nat (min k (int (length xs)))) xs)"

section \<open>Data model\<close>

record SearchParams =
  query :: jsval
  limit :: jsval
  includeDetails :: jsval

text \<open>
  One hit of the provider (\<^verbatim>\<open>any\<close> in the source; label, type and
  data are read).
\<close>

record Match =
  m_label :: string
  m_type :: jsval
  m_data :: jsval

text \<open>
  \<^verbatim>\<open>SearchResultItem\<close>; \<open>None\<close> is an absent (or
  undefined) \<^verbatim>\<open>details\<close>.
\<close>

record SearchResultItem =
  i_label :: string
  i_type :: jsval
  i_data :: jsval
  i_details :: "string option"

record SearchPayload =
  p_query :: string
  p_total :: nat
  p_returned :: nat
  p_truncated :: bool
  p_items :: "SearchResultItem list"

text \<open>
  The text a call returns: a plain sentence, or
  \<^verbatim>\<open>JSON.stringify(payload, null, 2)\<close>,
  kept as the payload it serialises (fields that are undefined are left out by
  \<^verbatim>\<open>JSON.stringify\<close>).
\<close>

datatype reply = Text string | Json SearchPayload

text \<open>
  How an \<^verbatim>\<open>async\<close> call ends: it returns, it throws (the promise
  rejects), or it
  stays suspended at an \<^verbatim>\<open>await\<close> whose promise has not settled.
\<close>

datatype 'a outcome = Returns 'a | Throws exn | Suspends

text \<open>
  What a run does to its collaborators, in order: calls of the provider, settlements of
  detail requests, and lines written with \<^verbatim>\<open>console.error\<close>. The
  number of a detail
  call is the index of the item it was issued for.
\<close>

datatype event =
    CallHasTypes
  | CallSearch string
  | CallDetails nat jsval
  | SettledDetails nat
  | ConsoleError string

section \<open>Validation of the arguments\<close>

definition query_of :: "SearchParams \<Rightarrow> string" where
  "query_of params =
     (if typeof (query params) = ''string''
      then (case query params of JStr s \<Rightarrow> trim s | _ \<Rightarrow> [])
      else [])"

definition limit_of :: "SearchParams \<Rightarrow> jsnum" where
  "limit_of params =
     (case limit params of
        JNum n \<Rightarrow> Math_min (Math_max (Math_floor n) (JFin 1)) (JFin 1000)
      | _ \<Rightarrow> JFin 500)"

definition includeDetails_of :: "SearchParams \<Rightarrow> bool" where
  "includeDetails_of params = (includeDetails params \<noteq> JBool False)"

definition base_item :: "Match \<Rightarrow> SearchResultItem" where
  "base_item item =
     \<lparr>i_label = m_label item, i_type = or_undefined (m_type item),
      i_data = or_undefined (m_data item), i_details = None\<rparr>"

definition base_payload :: "string \<Rightarrow> jsnum \<Rightarrow> Match list \<Rightarrow> SearchPayload" where
  "base_payload q lmt results =
     (let items = slice0 results lmt
      in \<lparr>p_query = q, p_total = length results, p_returned = length items,
          p_truncated = (length results > length items),
          p_items = map base_item items\<rparr>)"


section \<open>The standalone server\<close>

text \<open>
  The provider of the standalone server: the type database and the documentation
  module of the language server, called synchronously. A call may throw; a search may
  return nothing (\<open>None\<close> stands for null or undefined), and so may a detail lookup.
\<close>

record Provider =
  HasTypesFromUnreal :: bool
  GetAPISearch :: "string \<Rightarrow> exn + Match list option"
  GetAPIDetails :: "jsval \<Rightarrow> exn + string option"

definition no_query_msg :: string where
  "no_query_msg = ''No query provided. Please supply a search query.''"

definition database_empty_msg :: string where
  "database_empty_msg =
     ''Angelscript types have not been loaded. The type database is empty. '' @
     ''This typically means the Unreal Engine connection has not been established, '' @
     ''or no type data has been cached. Please ensure the Unreal Editor is running '' @
     ''and connected, or that cached type data is available.''"

definition no_results_msg :: "string \<Rightarrow> string" where
  "no_results_msg q = ''No Angelscript API results for '' @ [CHR 0x22] @ q @ [CHR 0x22] @ ''.''"

definition tool_failed_msg :: string where
  "tool_failed_msg =
     ''The Angelscript API tool failed to run. Please ensure the type database is properly initialized.''"

definition fetch_failed_msg :: "string \<Rightarrow> string" where
  "fetch_failed_msg lbl = ''Failed to fetch details for '' @ lbl @ '':''"

definition params_undefined :: exn where
  "params_undefined = ''TypeError: Cannot read properties of undefined''"

text \<open>
  The body of the loop over \<^verbatim>\<open>payload.items\<close>, for the item at index
  \<open>i\<close>.
\<close>

definition enrich_item :: "Provider \<Rightarrow> nat \<Rightarrow> SearchResultItem \<Rightarrow> SearchResultItem \<times> event list" where
  "enrich_item prov i item =
     (if truthy (i_data item) then
        (case GetAPIDetails prov (i_data item) of
           Inr details \<Rightarrow>
             (if details \<noteq> None \<and> details \<noteq> Some [] then item\<lparr>i_details := details\<rparr> else item,
              [CallDetails i (i_data item)])
         | Inl error \<Rightarrow>
             (item, [CallDetails i (i_data item), ConsoleError (fetch_failed_msg (i_label item))]))
      else (item, []))"

fun enrich_loop :: "Provider \<Rightarrow> nat \<Rightarrow> SearchResultItem list \<Rightarrow> SearchResultItem list \<times> event list" where
  "enrich_loop prov i [] = ([], [])"
| "enrich_loop prov i (item # rest) =
     (let (item', ev) = enrich_item prov i item;
          (rest', evs) = enrich_loop prov (Suc i) rest
      in (item' # rest', ev @ evs))"

text \<open>
  \<^verbatim>\<open>performApiSearch\<close> of \<^verbatim>\<open>index.ts\<close>. The
  arguments of the tool call may be
  absent (\<open>None\<close>): reading \<^verbatim>\<open>params.query\<close> then
  throws, outside the \<^verbatim>\<open>try\<close>.
\<close>

definition performApiSearch :: "Provider \<Rightarrow> SearchParams option \<Rightarrow> reply outcome \<times> event list" where
  "performApiSearch prov args =
     (case args of
        None \<Rightarrow> (Throws params_undefined, [])
      | Some params \<Rightarrow>
          let q = query_of params in
          if q = [] then (Returns (Text no_query_msg), [])
          else if \<not> HasTypesFromUnreal prov then (Returns (Text database_empty_msg), [CallHasTypes])
          else
            let lmt = limit_of params;
                inc = includeDetails_of params
            in (case GetAPISearch prov q of
                  Inl error \<Rightarrow>
                    (Returns (Text tool_failed_msg),
                     [CallHasTypes, CallSearch q, ConsoleError ''angelscript_searchApi tool failed:''])
                | Inr None \<Rightarrow> (Returns (Text (no_results_msg q)), [CallHasTypes, CallSearch q])
                | Inr (Some []) \<Rightarrow> (Returns (Text (no_results_msg q)), [CallHasTypes, CallSearch q])
                | Inr (Some results) \<Rightarrow>
                    let payload = base_payload q lmt results in
                    if inc then
                      (let (items', evs) = enrich_loop prov 0 (p_items payload)
                       in (Returns (Json (payload\<lparr>p_items := items'\<rparr>)),
                           [CallHasTypes, CallSearch q] @ evs))
                    else (Returns (Json payload), [CallHasTypes, CallSearch q])))"

text \<open>The result of a tool call: its text, and whether it is flagged as an error.\<close>

record CallToolResult =
  content_text :: reply
  isError :: bool

definition lift_result :: "reply outcome \<Rightarrow> CallToolResult outcome" where
  "lift_result r =
     (case r of
        Returns t \<Rightarrow> Returns \<lparr>content_text = t, isError = False\<rparr>
      | Throws e \<Rightarrow> Throws e
      | Suspends \<Rightarrow> Suspends)"

text \<open>
  The handler of \<^verbatim>\<open>CallToolRequestSchema\<close> in
  \<^verbatim>\<open>createServer\<close> of \<^verbatim>\<open>index.ts\<close>.
\<close>

definition callTool :: "Provider \<Rightarrow> string \<Rightarrow> SearchParams option \<Rightarrow> CallToolResult outcome \<times> event list" where
  "callTool prov name args =
     (if name = ''angelscript_searchApi'' then
        (let (result, evs) = performApiSearch prov args in (lift_result result, evs))
      else (Returns \<lparr>content_text = Text (''Unknown tool: '' @ name), isError = True\<rparr>, []))"

section \<open>The extension-integrated server\<close>

text \<open>
  The language client answers asynchronously. A promise is fulfilled, rejected, or never
  settles. The answer to the detail request issued for index \<open>i\<close> with data
  \<open>d\<close> is
  \<open>detailsResponse client i d\<close>; when that answer arrives is decided by the schedule.
\<close>

datatype 'a promise = Fulfilled 'a | Rejected exn | Pending

record Client =
  clientReady :: "unit promise"
  searchResponse :: "string \<Rightarrow> Match list option promise"
  detailsResponse :: "nat \<Rightarrow> jsval \<Rightarrow> exn + string"

definition mcp_failed_msg :: string where
  "mcp_failed_msg =
     ''The Angelscript API tool failed to run. Please ensure the language server is running and try again.''"

definition CONCURRENCY_LIMIT :: int where
  "CONCURRENCY_LIMIT = 10"

text \<open>
  The variables the closures of the enrichment step share. Beside the three variables of
  the source, the state lists the requests that are awaiting their answer, the requests
  whose \<^verbatim>\<open>then\<close> or \<^verbatim>\<open>catch\<close> callback has
  run and whose \<^verbatim>\<open>finally\<close> callback
  is still queued, whether \<^verbatim>\<open>resolveAll\<close> has been called, and the
  events so far.
\<close>

record Scheduler =
  nextIndex :: nat
  activeCount :: int
  allDetails :: "(nat \<times> string option) list"
  awaiting :: "nat list"
  settled :: "nat list"
  resolvedAll :: bool
  events :: "event list"

definition scheduler_init :: Scheduler where
  "scheduler_init =
     \<lparr>nextIndex = 0, activeCount = 0, allDetails = [], awaiting = [], settled = [],
      resolvedAll = False, events = []\<rparr>"

text \<open>
  One round of the \<^verbatim>\<open>while\<close> loop of
  \<^verbatim>\<open>startNext\<close>.
\<close>

definition dispatch :: "SearchResultItem list \<Rightarrow> Scheduler \<Rightarrow> Scheduler" where
  "dispatch items s =
     (let currentIndex = nextIndex s;
          itemData = i_data (items ! currentIndex)
      in s\<lparr>nextIndex := nextIndex s + 1,
            activeCount := activeCount s + 1,
            awaiting := awaiting s @ [currentIndex],
            events := events s @ [CallDetails currentIndex itemData]\<rparr>)"

function startNext :: "SearchResultItem list \<Rightarrow> Scheduler \<Rightarrow> Scheduler" where
  "startNext items s =
     (if nextIndex s < length items \<and> activeCount s < CONCURRENCY_LIMIT
      then startNext items (dispatch items s)
      else s)"
  by pat_completeness auto
termination
  by (relation "measure (\<lambda>(items, s). length items - nextIndex s)") (auto simp: dispatch_def Let_def)

text \<open>
  The answer for request \<open>i\<close> arrives: the \<^verbatim>\<open>then\<close>
  callback records the details, or
  the \<^verbatim>\<open>catch\<close> callback logs the failure and records an undefined detail.
\<close>

definition on_settle :: "Client \<Rightarrow> SearchResultItem list \<Rightarrow> nat \<Rightarrow> Scheduler \<Rightarrow> Scheduler" where
  "on_settle client items i s =
     (if i \<in> set (awaiting s) then
        (case detailsResponse client i (i_data (items ! i)) of
           Inr details \<Rightarrow>
             s\<lparr>allDetails := allDetails s @ [(i, Some details)],
               awaiting := removeAll i (awaiting s),
               settled := settled s @ [i],
               events := events s @ [SettledDetails i]\<rparr>
         | Inl error \<Rightarrow>
             s\<lparr>allDetails := allDetails s @ [(i, None)],
               awaiting := removeAll i (awaiting s),
               settled := settled s @ [i],
               events := events s @ [SettledDetails i, ConsoleError (fetch_failed_msg (i_label (items ! i)))]\<rparr>)
      else s)"

text \<open>The \<^verbatim>\<open>finally\<close> callback of request \<open>i\<close>.\<close>

definition on_finally :: "SearchResultItem list \<Rightarrow> nat \<Rightarrow> Scheduler \<Rightarrow> Scheduler" where
  "on_finally items i s =
     (if i \<in> set (settled s) then
        (let s' = s\<lparr>activeCount := activeCount s - 1, settled := removeAll i (settled s)\<rparr>
         in if nextIndex s' \<ge> length items \<and> activeCount s' = 0
            then s'\<lparr>resolvedAll := True\<rparr>
            else startNext items s')
      else s)"

text \<open>
  A schedule is the order in which the event loop runs the callbacks:
  \<open>Settle i\<close> delivers
  the answer of request \<open>i\<close>, \<open>Finalize i\<close> runs its
  \<^verbatim>\<open>finally\<close> callback. A tick
  for a request that is not in the matching stage does nothing.
\<close>

datatype tick = Settle nat | Finalize nat

fun run_tick :: "Client \<Rightarrow> SearchResultItem list \<Rightarrow> Scheduler \<Rightarrow> tick \<Rightarrow> Scheduler" where
  "run_tick client items s (Settle i) = on_settle client items i s"
| "run_tick client items s (Finalize i) = on_finally items i s"

text \<open>
  The promise built with \<^verbatim>\<open>new Promise((resolveAll) => ...)\<close>: the
  executor calls
  \<^verbatim>\<open>startNext\<close>, then the callbacks run as scheduled.
\<close>

definition settle_all :: "Client \<Rightarrow> SearchResultItem list \<Rightarrow> tick list \<Rightarrow> Scheduler" where
  "settle_all client items sched = foldl (run_tick client items) (startNext items scheduler_init) sched"

text \<open>
  The enrichment step up to the end of its \<^verbatim>\<open>await\<close>: the final
  state, or \<open>None\<close>
  while the promise is unresolved, and the events in both cases.
\<close>

definition fetch_all :: "Client \<Rightarrow> tick list \<Rightarrow> SearchResultItem list \<Rightarrow> Scheduler option \<times> event list" where
  "fetch_all client sched items =
     (let totalItems = length items in
      if totalItems > 0 then
        (let s = settle_all client items sched
         in (if resolvedAll s then Some s else None, events s))
      else (Some scheduler_init, []))"

text \<open>
  \<^verbatim>\<open>payload.items[detail.index].details = detail.details\<close> for every
  recorded detail;
  an index outside the array would throw.
\<close>

fun assign_details :: "SearchResultItem list \<Rightarrow> (nat \<times> string option) list \<Rightarrow> SearchResultItem list option" where
  "assign_details items [] = Some items"
| "assign_details items ((i, d) # rest) =
     (if i < length items
      then assign_details (items[i := (items ! i)\<lparr>i_details := d\<rparr>]) rest
      else None)"

text \<open>\<^verbatim>\<open>AngelscriptMcpServer.performApiSearch\<close>.\<close>

definition AngelscriptMcpServer_performApiSearch ::
  "Client \<Rightarrow> tick list \<Rightarrow> SearchParams option \<Rightarrow> reply outcome \<times> event list" where
  "AngelscriptMcpServer_performApiSearch client sched args =
     (case args of
        None \<Rightarrow> (Throws params_undefined, [])
      | Some params \<Rightarrow>
          let q = query_of params;
              failed = ConsoleError ''angelscript_searchApi MCP tool failed:''
          in
          if q = [] then (Returns (Text no_query_msg), [])
          else
            (case clientReady client of
               Pending \<Rightarrow> (Suspends, [])
             | Rejected error \<Rightarrow> (Returns (Text mcp_failed_msg), [failed])
             | Fulfilled u \<Rightarrow>
                 let lmt = limit_of params;
                     inc = includeDetails_of params
                 in (case searchResponse client q of
                       Pending \<Rightarrow> (Suspends, [CallSearch q])
                     | Rejected error \<Rightarrow> (Returns (Text mcp_failed_msg), [CallSearch q, failed])
                     | Fulfilled None \<Rightarrow> (Returns (Text (no_results_msg q)), [CallSearch q])
                     | Fulfilled (Some []) \<Rightarrow> (Returns (Text (no_results_msg q)), [CallSearch q])
                     | Fulfilled (Some results) \<Rightarrow>
                         let payload = base_payload q lmt results in
                         if inc then
                           (case fetch_all client sched (p_items payload) of
                              (None, evs) \<Rightarrow> (Suspends, CallSearch q # evs)
                            | (Some s, evs) \<Rightarrow>
                                (case assign_details (p_items payload) (allDetails s) of
                                   None \<Rightarrow> (Returns (Text mcp_failed_msg), CallSearch q # evs @ [failed])
                                 | Some items' \<Rightarrow>
                                     (Returns (Json (payload\<lparr>p_items := items'\<rparr>)), CallSearch q # evs)))
                         else (Returns (Json payload), [CallSearch q]))))"

text \<open>
  The handler of \<^verbatim>\<open>CallToolRequestSchema\<close> registered by the class.
\<close>

definition AngelscriptMcpServer_callTool ::
  "Client \<Rightarrow> tick list \<Rightarrow> string \<Rightarrow> SearchParams option \<Rightarrow> CallToolResult outcome \<times> event list" where
  "AngelscriptMcpServer_callTool client sched name args =
     (if name = ''angelscript_searchApi'' then
        (let (result, evs) = AngelscriptMcpServer_performApiSearch client sched args
         in (lift_result result, evs))
      else (Returns \<lparr>content_text = Text (''Unknown tool: '' @ name), isError = True\<rparr>, []))"


section \<open>Vocabulary of the properties\<close>

text \<open>A limit is valid when it is a whole number from 1 to 1000.\<close>

fun valid_limit :: "jsnum \<Rightarrow> bool" where
  "valid_limit (JFin r) = (1 \<le> r \<and> r \<le> 1000 \<and> of_int \<lfloor>r\<rfloor> = r)"
| "valid_limit n = False"

text \<open>
  The values a tool call can carry as an argument: the call arrives as JSON text, so a
  number is finite or, for a literal beyond the range of a double, infinite, and never NaN;
  an absent argument reads as undefined.
\<close>

fun from_json :: "jsval \<Rightarrow> bool" where
  "from_json (JNum n) = (n \<noteq> JNaN)"
| "from_json (JArr vs) = (\<forall>v \<in> set vs. from_json v)"
| "from_json (JObj kvs) = (\<forall>kv \<in> set kvs. from_json (snd kv))"
| "from_json v = True"

text \<open>
  The details the request for item \<open>i\<close> delivers: the text, or nothing when the
  request fails.
\<close>

definition answer :: "Client \<Rightarrow> SearchResultItem list \<Rightarrow> nat \<Rightarrow> string option" where
  "answer client items i =
     (case detailsResponse client i (i_data (items ! i)) of
        Inr details \<Rightarrow> Some details
      | Inl error \<Rightarrow> None)"

text \<open>Detail requests and their settlements among the events.\<close>

fun is_call :: "event \<Rightarrow> bool" where
  "is_call (CallDetails i d) = True"
| "is_call e = False"

fun is_settlement :: "event \<Rightarrow> bool" where
  "is_settlement (SettledDetails i) = True"
| "is_settlement e = False"

text \<open>
  The number of detail requests sent and not yet settled, after the events
  \<open>evs\<close>.
\<close>

definition in_flight :: "event list \<Rightarrow> int" where
  "in_flight evs = int (length (filter is_call evs)) - int (length (filter is_settlement evs))"

text \<open>
  The counters and lists of the scheduler agree: every index below
  \<^verbatim>\<open>nextIndex\<close> is either awaiting its answer or recorded once in
  \<^verbatim>\<open>allDetails\<close> with the answer of its own request, and
  \<^verbatim>\<open>activeCount\<close> counts the requests whose
  \<^verbatim>\<open>finally\<close> callback has not run.
\<close>

definition sched_inv :: "Client \<Rightarrow> SearchResultItem list \<Rightarrow> Scheduler \<Rightarrow> bool" where
  "sched_inv client items s \<longleftrightarrow>
     nextIndex s \<le> length items \<and>
     activeCount s = int (length (awaiting s)) + int (length (settled s)) \<and>
     activeCount s \<le> CONCURRENCY_LIMIT \<and>
     distinct (awaiting s) \<and> distinct (settled s) \<and> distinct (map fst (allDetails s)) \<and>
     set (awaiting s) \<union> fst ` set (allDetails s) = {0..<nextIndex s} \<and>
     set (awaiting s) \<inter> fst ` set (allDetails s) = {} \<and>
     set (settled s) \<subseteq> fst ` set (allDetails s) \<and>
     (\<forall>p \<in> set (allDetails s). snd p = answer client items (fst p)) \<and>
     (resolvedAll s \<longrightarrow> nextIndex s = length items \<and> activeCount s = 0)"

text \<open>
  The events agree with the state: one request per dispatched index, in index order; one
  settlement per recorded detail; every failure logged with the label of its item.
\<close>

definition trace_inv :: "SearchResultItem list \<Rightarrow> Scheduler \<Rightarrow> bool" where
  "trace_inv items s \<longleftrightarrow>
     filter is_call (events s) = map (\<lambda>i. CallDetails i (i_data (items ! i))) [0..<nextIndex s] \<and>
     filter is_settlement (events s) = map (\<lambda>p. SettledDetails (fst p)) (allDetails s) \<and>
     in_flight (events s) = int (length (awaiting s)) \<and>
     (\<forall>k. in_flight (take k (events s)) \<le> CONCURRENCY_LIMIT) \<and>
     (\<forall>p \<in> set (allDetails s). snd p = None \<longrightarrow>
         ConsoleError (fetch_failed_msg (i_label (items ! fst p))) \<in> set (events s))"

text \<open>
  Between two callbacks an unresolved scheduler has work in flight, and a full window
  whenever items remain.
\<close>

definition progress_inv :: "SearchResultItem list \<Rightarrow> Scheduler \<Rightarrow> bool" where
  "progress_inv items s \<longleftrightarrow>
     (\<not> resolvedAll s \<longrightarrow>
        0 < activeCount s \<and> (nextIndex s < length items \<longrightarrow> activeCount s = CONCURRENCY_LIMIT))"

definition all_inv :: "Client \<Rightarrow> SearchResultItem list \<Rightarrow> Scheduler \<Rightarrow> bool" where
  "all_inv client items s \<longleftrightarrow> sched_inv client items s \<and> trace_inv items s \<and> progress_inv items s"

text \<open>The items with the details of their own requests, in the order of the input.\<close>

definition enriched :: "Client \<Rightarrow> SearchResultItem list \<Rightarrow> SearchResultItem list" where
  "enriched client items = map (\<lambda>i. (items ! i)\<lparr>i_details := answer client items i\<rparr>) [0..<length items]"

text \<open>
  A measure of the work an unresolved scheduler still has: two callbacks for every detail
  not yet recorded, one for every request whose \<^verbatim>\<open>finally\<close> callback
  is queued.
\<close>

definition remaining :: "SearchResultItem list \<Rightarrow> Scheduler \<Rightarrow> nat" where
  "remaining items s = 2 * (length items - length (allDetails s)) + length (settled s)"

text \<open>
  Inputs for the worked examples: \<open>n\<close> matches, a language client whose request
  for index 1 fails, and tool arguments with the query \<^verbatim>\<open>GetActor\<close>.
\<close>

definition example_matches :: "nat \<Rightarrow> Match list" where
  "example_matches n =
     map (\<lambda>i. \<lparr>m_label = ''Actor'', m_type = JStr ''class'', m_data = JArr [JStr ''method'', JStr ''AActor'', JNum (JFin (of_nat i))]\<rparr>) [0..<n]"

definition example_client :: "nat \<Rightarrow> Client" where
  "example_client n =
     \<lparr>clientReady = Fulfilled (),
      searchResponse = (\<lambda>q. Fulfilled (Some (example_matches n))),
      detailsResponse = (\<lambda>i d. if i = 1 then Inl ''timeout'' else Inr ''doc'')\<rparr>"

definition example_params :: "jsval \<Rightarrow> jsval \<Rightarrow> SearchParams" where
  "example_params lmt inc = \<lparr>query = JStr ''GetActor'', limit = lmt, includeDetails = inc\<rparr>"

text \<open>
  A provider for the standalone server over the same matches; its detail lookup fails for
  the match numbered 1. The second argument says whether type data is loaded.
\<close>

definition example_provider :: "nat \<Rightarrow> bool \<Rightarrow> Provider" where
  "example_provider n loaded =
     \<lparr>HasTypesFromUnreal = loaded,
      GetAPISearch = (\<lambda>q. Inr (Some (example_matches n))),
      GetAPIDetails = (\<lambda>d. if d = JArr [JStr ''method'', JStr ''AActor'', JNum (JFin 1)] then Inl ''lookup failed'' else Inr (Some ''doc''))\<rparr>"

text \<open>
  The payload reports the first \<open>n\<close> matches of the provider, in the provider's
  order and apart from their details, with the counts that go with them.
\<close>

definition first_matches :: "string \<Rightarrow> nat \<Rightarrow> Match list \<Rightarrow> SearchPayload \<Rightarrow> bool" where
  "first_matches q n results payload \<longleftrightarrow>
     p_query payload = q \<and>
     map (\<lambda>item. item\<lparr>i_details := None\<rparr>) (p_items payload) = map base_item (take n results) \<and>
     p_total payload = length results \<and>
     p_returned payload = min (length results) n \<and>
     p_truncated payload = (p_total payload > p_returned payload)"

text \<open>
  A provider whose only match carries no data.
\<close>

definition provider_without_data :: Provider where
  "provider_without_data =
     \<lparr>HasTypesFromUnreal = True,
      GetAPISearch = (\<lambda>q. Inr (Some [\<lparr>m_label = ''Actor'', m_type = JUndefined, m_data = JUndefined\<rparr>])),
      GetAPIDetails = (\<lambda>d. Inr (Some ''doc''))\<rparr>"

text \<open>
  A provider over the example matches whose lookup throws for the match numbered 1 and
  returns the empty text for every other match.
\<close>

definition provider_with_empty_text :: "nat \<Rightarrow> Provider" where
  "provider_with_empty_text n =
     \<lparr>HasTypesFromUnreal = True,
      GetAPISearch = (\<lambda>q. Inr (Some (example_matches n))),
      GetAPIDetails =
        (\<lambda>d. if d = JArr [JStr ''method'', JStr ''AActor'', JNum (JFin 1)]
              then Inl ''lookup failed'' else Inr (Some []))\<rparr>"

section \<open>Validation of the limit\<close>

lemma limit_of_number:
  "limit params = JNum n \<Longrightarrow>
   limit_of params = Math_min (Math_max (Math_floor n) (JFin 1)) (JFin 1000)"
  by (simp add: limit_of_def)

lemma typeof_number: "typeof v = ''number'' \<longleftrightarrow> (\<exists>n. v = JNum n)"
  by (cases v) auto

lemma clamp_valid:
  "n \<noteq> JNaN \<Longrightarrow> valid_limit (Math_min (Math_max (Math_floor n) (JFin 1)) (JFin 1000))"
  by (cases n) (auto simp: max_def min_def)

text \<open>
  C6: the validation of the limit is a total function of the raw argument. Every argument
  that a tool call can carry (parsed JSON, which has no NaN, or an absent argument) gives
  a whole number from 1 to 1000: a number is floored and clamped (a finite \<open>r\<close>
  to \<open>min (max \<lfloor>r\<rfloor> 1) 1000\<close>, an overflowing literal to 1000 or 1),
  and an argument that is not a number, absent included, gives exactly 500; so -5, 0, 0.5,
  500000, "abc" and an absent argument all give a valid limit.
\<close>

theorem limit_validation_clamps:
  "(from_json (limit params) \<longrightarrow> valid_limit (limit_of params))
   \<and> (\<forall>r. limit params = JNum (JFin r) \<longrightarrow> limit_of params = JFin (of_int (min (max \<lfloor>r\<rfloor> 1) 1000)))
   \<and> (limit params = JNum JPosInf \<longrightarrow> limit_of params = JFin 1000)
   \<and> (limit params = JNum JNegInf \<longrightarrow> limit_of params = JFin 1)
   \<and> (typeof (limit params) \<noteq> ''number'' \<longrightarrow> limit_of params = JFin 500)
   \<and> limit_of (params\<lparr>limit := JNum (JFin (-5))\<rparr>) = JFin 1
   \<and> limit_of (params\<lparr>limit := JNum (JFin 0)\<rparr>) = JFin 1
   \<and> limit_of (params\<lparr>limit := JNum (JFin (1/2))\<rparr>) = JFin 1
   \<and> limit_of (params\<lparr>limit := JNum (JFin 500000)\<rparr>) = JFin 1000
   \<and> limit_of (params\<lparr>limit := JStr ''abc''\<rparr>) = JFin 500
   \<and> limit_of (params\<lparr>limit := JUndefined\<rparr>) = JFin 500"
proof -
  have c: "typeof (limit params) \<noteq> ''number'' \<longrightarrow> limit_of params = JFin 500"
    by (cases "limit params") (auto simp: limit_of_def)
  have a: "from_json (limit params) \<longrightarrow> valid_limit (limit_of params)"
  proof
    assume j: "from_json (limit params)"
    show "valid_limit (limit_of params)"
    proof (cases "typeof (limit params) = ''number''")
      case True
      then obtain n where n: "limit params = JNum n" by (auto simp: typeof_number)
      with j have "n \<noteq> JNaN" by simp
      then show ?thesis using clamp_valid n by (simp add: limit_of_number)
    next
      case False
      with c show ?thesis by simp
    qed
  qed
  have b: "\<forall>r. limit params = JNum (JFin r) \<longrightarrow> limit_of params = JFin (of_int (min (max \<lfloor>r\<rfloor> 1) 1000))"
    by (auto simp: limit_of_def max_def min_def)
  have d: "limit params = JNum JPosInf \<longrightarrow> limit_of params = JFin 1000"
    "limit params = JNum JNegInf \<longrightarrow> limit_of params = JFin 1"
    by (simp_all add: limit_of_def)
  show ?thesis using a b c d by (simp add: limit_of_def)
qed

text \<open>
  The six arguments of the specification, each one an argument a tool call can carry.
\<close>

theorem limit_validation_witness:
  "from_json (JNum (JFin (-5))) \<and> from_json (JNum (JFin 0)) \<and> from_json (JNum (JFin (1/2)))
   \<and> from_json (JNum (JFin 500000)) \<and> from_json (JStr ''abc'') \<and> from_json JUndefined
   \<and> typeof (JStr ''abc'') \<noteq> ''number'' \<and> typeof JUndefined \<noteq> ''number''
   \<and> valid_limit (limit_of \<lparr>query = JStr ''GetActor'', limit = JNum (JFin (-5)), includeDetails = JUndefined\<rparr>)
   \<and> valid_limit (limit_of \<lparr>query = JStr ''GetActor'', limit = JNum (JFin 0), includeDetails = JUndefined\<rparr>)
   \<and> valid_limit (limit_of \<lparr>query = JStr ''GetActor'', limit = JNum (JFin (1/2)), includeDetails = JUndefined\<rparr>)
   \<and> limit_of \<lparr>query = JStr ''GetActor'', limit = JNum (JFin (1/2)), includeDetails = JUndefined\<rparr> = JFin 1
   \<and> valid_limit (limit_of \<lparr>query = JStr ''GetActor'', limit = JNum (JFin 500000), includeDetails = JUndefined\<rparr>)
   \<and> limit_of \<lparr>query = JStr ''GetActor'', limit = JStr ''abc'', includeDetails = JUndefined\<rparr> = JFin 500
   \<and> limit_of \<lparr>query = JStr ''GetActor'', limit = JUndefined, includeDetails = JUndefined\<rparr> = JFin 500"
proof -
  let ?m = "\<lparr>query = JStr ''GetActor'', limit = JNum (JFin (-5)), includeDetails = JUndefined\<rparr>"
  let ?z = "\<lparr>query = JStr ''GetActor'', limit = JNum (JFin 0), includeDetails = JUndefined\<rparr>"
  let ?p = "\<lparr>query = JStr ''GetActor'', limit = JNum (JFin (1/2)), includeDetails = JUndefined\<rparr>"
  let ?b = "\<lparr>query = JStr ''GetActor'', limit = JNum (JFin 500000), includeDetails = JUndefined\<rparr>"
  let ?q = "\<lparr>query = JStr ''GetActor'', limit = JStr ''abc'', includeDetails = JUndefined\<rparr>"
  let ?u = "\<lparr>query = JStr ''GetActor'', limit = JUndefined, includeDetails = JUndefined\<rparr>"
  have j: "from_json (limit ?m)" "from_json (limit ?z)" "from_json (limit ?p)"
    "from_json (limit ?b)" "from_json (limit ?q)" "from_json (limit ?u)"
    by simp_all
  have h2: "limit ?p = JNum (JFin (1/2))" by simp
  have h3: "typeof (limit ?q) \<noteq> ''number''" "typeof (limit ?u) \<noteq> ''number''" by simp_all
  have v: "valid_limit (limit_of ?m)" "valid_limit (limit_of ?z)" "valid_limit (limit_of ?p)"
    "valid_limit (limit_of ?b)"
    using limit_validation_clamps [of ?m] limit_validation_clamps [of ?z]
      limit_validation_clamps [of ?p] limit_validation_clamps [of ?b] j
    by blast+
  have "limit_of ?p = JFin (of_int (min (max \<lfloor>1/2 :: rat\<rfloor> 1) 1000))"
    using limit_validation_clamps [of ?p] h2 by blast
  then have c2: "limit_of ?p = JFin 1" by simp
  have c3: "limit_of ?q = JFin 500" using limit_validation_clamps [of ?q] h3(1) by blast
  have c4: "limit_of ?u = JFin 500" using limit_validation_clamps [of ?u] h3(2) by blast
  show ?thesis using j h3 v c2 c3 c4 by simp
qed

section \<open>The enrichment scheduler\<close>

declare startNext.simps [simp del]

lemma in_flight_append: "in_flight (xs @ ys) = in_flight xs + in_flight ys"
  by (simp add: in_flight_def)

lemma in_flight_simps [simp]:
  "in_flight [] = 0"
  "in_flight (CallDetails i d # es) = in_flight es + 1"
  "in_flight (SettledDetails i # es) = in_flight es - 1"
  "in_flight (ConsoleError m # es) = in_flight es"
  "in_flight (CallSearch q # es) = in_flight es"
  "in_flight (CallHasTypes # es) = in_flight es"
  by (simp_all add: in_flight_def)

lemma in_flight_take_snoc:
  "in_flight (take k xs) + in_flight (take (k - length xs) [e]) =
     (if k \<le> length xs then in_flight (take k xs) else in_flight xs + in_flight [e])"
  by (cases "k - length xs") auto

lemma length_removeAll_distinct:
  "distinct xs \<Longrightarrow> i \<in> set xs \<Longrightarrow> int (length (removeAll i xs)) = int (length xs) - 1"
proof -
  assume d: "distinct xs" and m: "i \<in> set xs"
  have "0 < length xs" using m by (rule length_pos_if_in_set)
  moreover have "length (removeAll i xs) = length xs - 1"
    using d m by (simp add: distinct_remove1_removeAll [symmetric] length_remove1)
  ultimately show ?thesis by (cases xs) simp_all
qed

lemma dispatch_sched_inv:
  assumes "sched_inv client items s" "nextIndex s < length items" "activeCount s < CONCURRENCY_LIMIT"
  shows "sched_inv client items (dispatch items s)"
proof -
  have "nextIndex s \<notin> set (awaiting s)" "nextIndex s \<notin> fst ` set (allDetails s)"
    using assms(1) unfolding sched_inv_def by (metis Un_iff atLeastLessThan_iff less_irrefl)+
  moreover have "\<not> resolvedAll s" using assms(1,2) unfolding sched_inv_def by auto
  ultimately show ?thesis
    using assms unfolding sched_inv_def dispatch_def Let_def
    by (auto simp: atLeastLessThanSuc)
qed

lemma dispatch_trace_inv:
  assumes "trace_inv items s" "sched_inv client items s" "activeCount s < CONCURRENCY_LIMIT"
  shows "trace_inv items (dispatch items s)"
proof -
  have le: "int (length (awaiting s)) < CONCURRENCY_LIMIT"
    using assms(2,3) unfolding sched_inv_def by linarith
  show ?thesis
    using assms(1) le unfolding trace_inv_def dispatch_def Let_def
    by (auto simp: in_flight_append in_flight_take_snoc)
qed

lemma startNext_sched_inv:
  "sched_inv client items s \<Longrightarrow> sched_inv client items (startNext items s)"
proof (induction items s rule: startNext.induct)
  case (1 items s)
  show ?case
  proof (cases "nextIndex s < length items \<and> activeCount s < CONCURRENCY_LIMIT")
    case True
    with 1 have "sched_inv client items (startNext items (dispatch items s))"
      using dispatch_sched_inv by blast
    with True show ?thesis by (subst startNext.simps) simp
  next
    case False
    then show ?thesis using "1.prems" by (subst startNext.simps) auto
  qed
qed

lemma startNext_trace_inv:
  "trace_inv items s \<Longrightarrow> sched_inv client items s \<Longrightarrow> trace_inv items (startNext items s)"
proof (induction items s rule: startNext.induct)
  case (1 items s)
  show ?case
  proof (cases "nextIndex s < length items \<and> activeCount s < CONCURRENCY_LIMIT")
    case True
    with 1 have "trace_inv items (startNext items (dispatch items s))"
      using dispatch_sched_inv dispatch_trace_inv by blast
    with True show ?thesis by (subst startNext.simps) simp
  next
    case False
    then show ?thesis using "1.prems" by (subst startNext.simps) auto
  qed
qed

lemma startNext_post:
  "\<not> (nextIndex (startNext items s) < length items \<and> activeCount (startNext items s) < CONCURRENCY_LIMIT)
   \<and> activeCount s \<le> activeCount (startNext items s)
   \<and> (nextIndex s < length items \<and> activeCount s < CONCURRENCY_LIMIT \<longrightarrow> activeCount s < activeCount (startNext items s))
   \<and> resolvedAll (startNext items s) = resolvedAll s"
proof (induction items s rule: startNext.induct)
  case (1 items s)
  show ?case
  proof (cases "nextIndex s < length items \<and> activeCount s < CONCURRENCY_LIMIT")
    case True
    have "activeCount (dispatch items s) = activeCount s + 1" "resolvedAll (dispatch items s) = resolvedAll s"
      by (simp_all add: dispatch_def Let_def)
    then show ?thesis using 1 True by (subst (1 2 3 4 5) startNext.simps) auto
  next
    case False
    then show ?thesis by (subst (1 2 3 4 5) startNext.simps) auto
  qed
qed

lemma in_flight_prefix_append:
  assumes "\<forall>k. in_flight (take k xs) \<le> c" "\<forall>k. in_flight xs + in_flight (take k ys) \<le> c"
  shows "in_flight (take k (xs @ ys)) \<le> c"
proof (cases "k \<le> length xs")
  case True
  then show ?thesis using assms(1) by simp
next
  case False
  then show ?thesis using assms(2) by (simp add: in_flight_append)
qed

lemma in_flight_take_settled:
  "in_flight (take k [SettledDetails i]) \<le> 0"
  "in_flight (take k [SettledDetails i, ConsoleError m]) \<le> 0"
  by (cases k; cases "k - 1"; simp)+

lemma on_settle_sched_inv:
  assumes "sched_inv client items s"
  shows "sched_inv client items (on_settle client items i s)"
proof (cases "i \<in> set (awaiting s)")
  case False
  then show ?thesis using assms by (simp add: on_settle_def)
next
  case True
  have nD: "i \<notin> fst ` set (allDetails s)" using assms True unfolding sched_inv_def by blast
  then have nS: "i \<notin> set (settled s)" using assms unfolding sched_inv_def by blast
  have len: "int (length (removeAll i (awaiting s))) = int (length (awaiting s)) - 1"
    using assms True unfolding sched_inv_def by (simp add: length_removeAll_distinct)
  have nres: "\<not> resolvedAll s"
  proof
    assume "resolvedAll s"
    then have "int (length (awaiting s)) + int (length (settled s)) = 0"
      using assms unfolding sched_inv_def by simp
    moreover have "0 < length (awaiting s)" using True by (rule length_pos_if_in_set)
    ultimately show False by linarith
  qed
  show ?thesis
    using assms True nD nS len nres unfolding sched_inv_def on_settle_def
    by (auto simp: answer_def distinct_removeAll split: sum.splits)
qed

lemma on_settle_trace_inv:
  assumes "trace_inv items s" "sched_inv client items s"
  shows "trace_inv items (on_settle client items i s)"
proof (cases "i \<in> set (awaiting s)")
  case False
  then show ?thesis using assms by (simp add: on_settle_def)
next
  case True
  have len: "int (length (removeAll i (awaiting s))) = int (length (awaiting s)) - 1"
    using assms True unfolding sched_inv_def by (simp add: length_removeAll_distinct)
  have bound: "in_flight (events s) \<le> CONCURRENCY_LIMIT"
    using assms(1) unfolding trace_inv_def by (metis take_all order_refl)
  have pre: "\<forall>k. in_flight (take k (events s)) \<le> CONCURRENCY_LIMIT"
    using assms(1) unfolding trace_inv_def by blast
  have p1: "in_flight (take k (events s @ [SettledDetails i])) \<le> CONCURRENCY_LIMIT" for k
    using in_flight_prefix_append [OF pre, of "[SettledDetails i]" k] bound in_flight_take_settled(1)
    by (smt (verit))
  have p2: "in_flight (take k (events s @ [SettledDetails i, ConsoleError m])) \<le> CONCURRENCY_LIMIT" for k m
    using in_flight_prefix_append [OF pre, of "[SettledDetails i, ConsoleError m]" k] bound in_flight_take_settled(2)
    by (smt (verit))
  show ?thesis
  proof (cases "detailsResponse client i (i_data (items ! i))")
    case (Inl e)
    then show ?thesis
      using assms(1) True len p2 unfolding trace_inv_def on_settle_def
      by (auto simp: in_flight_append simp del: take_append)
  next
    case (Inr d)
    then show ?thesis
      using assms(1) True len p1 unfolding trace_inv_def on_settle_def
      by (auto simp: in_flight_append simp del: take_append)
  qed
qed

lemma on_settle_progress_inv:
  "progress_inv items s \<Longrightarrow> progress_inv items (on_settle client items i s)"
  by (auto simp: progress_inv_def on_settle_def split: sum.splits)

lemma on_finally_unfold:
  "on_finally items i s =
     (if i \<in> set (settled s) then
        (if length items \<le> nextIndex s \<and> activeCount s - 1 = 0
         then s\<lparr>activeCount := activeCount s - 1, settled := removeAll i (settled s), resolvedAll := True\<rparr>
         else startNext items (s\<lparr>activeCount := activeCount s - 1, settled := removeAll i (settled s)\<rparr>))
      else s)"
  by (simp add: on_finally_def Let_def)

lemma finalized_sched_inv:
  assumes "sched_inv client items s" "i \<in> set (settled s)"
  shows "sched_inv client items (s\<lparr>activeCount := activeCount s - 1, settled := removeAll i (settled s)\<rparr>)"
    and "\<not> resolvedAll s" and "0 \<le> activeCount s - 1"
proof -
  have len: "int (length (removeAll i (settled s))) = int (length (settled s)) - 1"
    using assms unfolding sched_inv_def by (simp add: length_removeAll_distinct)
  have pos: "0 < length (settled s)" using assms(2) by (rule length_pos_if_in_set)
  show nres: "\<not> resolvedAll s"
  proof
    assume "resolvedAll s"
    then have "int (length (awaiting s)) + int (length (settled s)) = 0"
      using assms unfolding sched_inv_def by simp
    with pos show False by linarith
  qed
  show "0 \<le> activeCount s - 1" using assms(1) pos unfolding sched_inv_def by linarith
  show "sched_inv client items (s\<lparr>activeCount := activeCount s - 1, settled := removeAll i (settled s)\<rparr>)"
    using assms len nres unfolding sched_inv_def
    by (auto simp: distinct_removeAll)
qed

lemma on_finally_sched_inv:
  assumes "sched_inv client items s"
  shows "sched_inv client items (on_finally items i s)"
proof (cases "i \<in> set (settled s)")
  case False
  then show ?thesis using assms by (simp add: on_finally_unfold)
next
  case True
  let ?s1 = "s\<lparr>activeCount := activeCount s - 1, settled := removeAll i (settled s)\<rparr>"
  have inv1: "sched_inv client items ?s1" using finalized_sched_inv(1) [OF assms True] .
  show ?thesis
  proof (cases "length items \<le> nextIndex s \<and> activeCount s - 1 = 0")
    case False
    then show ?thesis using True startNext_sched_inv [OF inv1] by (auto simp: on_finally_unfold)
  next
    case last: True
    have "sched_inv client items (?s1\<lparr>resolvedAll := True\<rparr>)"
      using inv1 last unfolding sched_inv_def by auto
    then show ?thesis using True last by (simp add: on_finally_unfold)
  qed
qed

lemma on_finally_trace_inv:
  assumes "trace_inv items s" "sched_inv client items s"
  shows "trace_inv items (on_finally items i s)"
proof (cases "i \<in> set (settled s)")
  case False
  then show ?thesis using assms by (simp add: on_finally_unfold)
next
  case True
  let ?s1 = "s\<lparr>activeCount := activeCount s - 1, settled := removeAll i (settled s)\<rparr>"
  have inv1: "sched_inv client items ?s1" using finalized_sched_inv(1) [OF assms(2) True] .
  have tr1: "trace_inv items ?s1" using assms(1) unfolding trace_inv_def by simp
  show ?thesis
  proof (cases "length items \<le> nextIndex s \<and> activeCount s - 1 = 0")
    case False
    then show ?thesis using True startNext_trace_inv [OF tr1 inv1] by (auto simp: on_finally_unfold)
  next
    case last: True
    have "trace_inv items (?s1\<lparr>resolvedAll := True\<rparr>)"
      using tr1 unfolding trace_inv_def by simp
    then show ?thesis using True last by (simp add: on_finally_unfold)
  qed
qed

lemma on_finally_progress_inv:
  assumes "progress_inv items s" "sched_inv client items s"
  shows "progress_inv items (on_finally items i s)"
proof (cases "i \<in> set (settled s)")
  case False
  then show ?thesis using assms by (simp add: on_finally_unfold)
next
  case True
  let ?s1 = "s\<lparr>activeCount := activeCount s - 1, settled := removeAll i (settled s)\<rparr>"
  have nn: "0 \<le> activeCount s - 1" using finalized_sched_inv(3) [OF assms(2) True] .
  have le: "activeCount s \<le> CONCURRENCY_LIMIT" using assms(2) unfolding sched_inv_def by simp
  show ?thesis
  proof (cases "length items \<le> nextIndex s \<and> activeCount s - 1 = 0")
    case last: True
    then show ?thesis using True by (simp add: on_finally_unfold progress_inv_def)
  next
    case False
    have post: "\<not> (nextIndex (startNext items ?s1) < length items \<and> activeCount (startNext items ?s1) < CONCURRENCY_LIMIT)"
      "activeCount ?s1 \<le> activeCount (startNext items ?s1)"
      "nextIndex ?s1 < length items \<and> activeCount ?s1 < CONCURRENCY_LIMIT \<longrightarrow> activeCount ?s1 < activeCount (startNext items ?s1)"
      using startNext_post [of items ?s1] by blast+
    have inv2: "sched_inv client items (startNext items ?s1)"
      using startNext_sched_inv [OF finalized_sched_inv(1) [OF assms(2) True]] .
    then have le2: "activeCount (startNext items ?s1) \<le> CONCURRENCY_LIMIT"
      unfolding sched_inv_def by simp
    have pos: "0 < activeCount (startNext items ?s1)"
    proof (cases "nextIndex s < length items")
      case True
      then show ?thesis using post(3) nn le by simp
    next
      case False
      then have "activeCount s - 1 \<noteq> 0" using \<open>\<not> (length items \<le> nextIndex s \<and> activeCount s - 1 = 0)\<close> by simp
      then show ?thesis using post(2) nn by simp
    qed
    have full: "nextIndex (startNext items ?s1) < length items \<longrightarrow> activeCount (startNext items ?s1) = CONCURRENCY_LIMIT"
      using post(1) le2 by auto
    show ?thesis using True False pos full by (simp add: on_finally_unfold progress_inv_def)
  qed
qed

lemma run_tick_all_inv:
  "all_inv client items s \<Longrightarrow> all_inv client items (run_tick client items s t)"
  by (cases t)
     (auto simp: all_inv_def
        intro: on_settle_sched_inv on_settle_trace_inv on_settle_progress_inv
          on_finally_sched_inv on_finally_trace_inv on_finally_progress_inv)

lemma foldl_all_inv:
  "all_inv client items s \<Longrightarrow> all_inv client items (foldl (run_tick client items) s sched)"
  by (induction sched arbitrary: s) (simp_all add: run_tick_all_inv)

lemma init_sched_inv: "sched_inv client items scheduler_init"
  by (simp add: sched_inv_def scheduler_init_def CONCURRENCY_LIMIT_def)

lemma init_trace_inv: "trace_inv items scheduler_init"
  by (simp add: trace_inv_def scheduler_init_def CONCURRENCY_LIMIT_def)

lemma start_all_inv:
  assumes "0 < length items"
  shows "all_inv client items (startNext items scheduler_init)"
proof -
  let ?s = "startNext items scheduler_init"
  have a: "sched_inv client items ?s" using startNext_sched_inv [OF init_sched_inv] .
  have b: "trace_inv items ?s" using startNext_trace_inv [OF init_trace_inv init_sched_inv] .
  have post: "\<not> (nextIndex ?s < length items \<and> activeCount ?s < CONCURRENCY_LIMIT)"
    "nextIndex scheduler_init < length items \<and> activeCount scheduler_init < CONCURRENCY_LIMIT \<longrightarrow> activeCount scheduler_init < activeCount ?s"
    using startNext_post [of items scheduler_init] by blast+
  have pos: "0 < activeCount ?s" using post(2) assms by (simp add: scheduler_init_def CONCURRENCY_LIMIT_def)
  have le: "activeCount ?s \<le> CONCURRENCY_LIMIT" using a unfolding sched_inv_def by simp
  have "progress_inv items ?s" using pos post(1) le by (auto simp: progress_inv_def)
  with a b show ?thesis by (simp add: all_inv_def)
qed

lemma settle_all_inv:
  "0 < length items \<Longrightarrow> all_inv client items (settle_all client items sched)"
  unfolding settle_all_def by (rule foldl_all_inv) (rule start_all_inv)

lemma assign_details_distinct:
  assumes "distinct (map fst ds)" "\<forall>p \<in> set ds. fst p < length items"
  shows "\<exists>items'. assign_details items ds = Some items' \<and> length items' = length items \<and>
           (\<forall>j < length items. items' ! j =
              (case map_of ds j of None \<Rightarrow> items ! j | Some d \<Rightarrow> (items ! j)\<lparr>i_details := d\<rparr>))"
  using assms
proof (induction ds arbitrary: items)
  case Nil
  then show ?case by simp
next
  case (Cons p ds)
  obtain i d where p: "p = (i, d)" by (cases p)
  let ?items1 = "items[i := (items ! i)\<lparr>i_details := d\<rparr>]"
  have i: "i < length items" and notin: "i \<notin> fst ` set ds" using Cons.prems p by auto
  have "distinct (map fst ds)" "\<forall>p \<in> set ds. fst p < length ?items1" using Cons.prems by auto
  from Cons.IH [OF this] obtain items' where
    r: "assign_details ?items1 ds = Some items'" "length items' = length items"
      "\<forall>j < length items. items' ! j =
         (case map_of ds j of None \<Rightarrow> ?items1 ! j | Some d \<Rightarrow> (?items1 ! j)\<lparr>i_details := d\<rparr>)"
    by auto
  have none: "map_of ds i = None" using notin by (simp add: map_of_eq_None_iff)
  have "items' ! j = (case map_of (p # ds) j of None \<Rightarrow> items ! j | Some d \<Rightarrow> (items ! j)\<lparr>i_details := d\<rparr>)"
    if "j < length items" for j
    using r(3) that none i p by (cases "j = i") (auto simp: nth_list_update split: option.splits)
  then show ?case using r(1,2) i p by simp
qed

lemma assign_details_enriched:
  assumes "distinct (map fst ds)" "fst ` set ds = {0..<length items}"
    "\<forall>p \<in> set ds. snd p = answer client items (fst p)"
  shows "assign_details items ds = Some (enriched client items)"
proof -
  have "fst p < length items" if "p \<in> set ds" for p
  proof -
    from that have "fst p \<in> fst ` set ds" by (rule imageI)
    with assms(2) show ?thesis by simp
  qed
  then have "\<forall>p \<in> set ds. fst p < length items" by blast
  from assign_details_distinct [OF assms(1) this] obtain items' where
    r: "assign_details items ds = Some items'" "length items' = length items"
      "\<forall>j < length items. items' ! j =
         (case map_of ds j of None \<Rightarrow> items ! j | Some d \<Rightarrow> (items ! j)\<lparr>i_details := d\<rparr>)"
    by auto
  have "map_of ds j = Some (answer client items j)" if "j < length items" for j
  proof -
    from that assms(2) have "j \<in> fst ` set ds" by simp
    then obtain p where "p \<in> set ds" "fst p = j" by (auto simp: image_iff)
    then have "snd p = answer client items j" using assms(3) by auto
    with \<open>fst p = j\<close> have "p = (j, answer client items j)" by (cases p) simp
    with \<open>p \<in> set ds\<close> have "(j, answer client items j) \<in> set ds" by simp
    then show ?thesis using assms(1) by simp
  qed
  then have "items' = enriched client items"
    using r(2,3) by (intro nth_equalityI) (simp_all add: enriched_def)
  with r(1) show ?thesis by simp
qed

lemma resolved_all_details:
  assumes "sched_inv client items s" "resolvedAll s"
  shows "fst ` set (allDetails s) = {0..<length items}" "awaiting s = []" "settled s = []"
proof -
  have z: "int (length (awaiting s)) + int (length (settled s)) = 0" and n: "nextIndex s = length items"
    using assms unfolding sched_inv_def by auto
  from z have z': "length (awaiting s) + length (settled s) = 0" by linarith
  from z' show a: "awaiting s = []" by simp
  from z' show "settled s = []" by simp
  from a n show "fst ` set (allDetails s) = {0..<length items}"
    using assms unfolding sched_inv_def by auto
qed

lemma resolved_assign:
  assumes "sched_inv client items s" "resolvedAll s"
  shows "assign_details items (allDetails s) = Some (enriched client items)"
  using assms resolved_all_details(1) [OF assms]
  by (intro assign_details_enriched) (auto simp: sched_inv_def)

lemma unresolved_active:
  assumes "all_inv client items s"
  shows "resolvedAll s \<longleftrightarrow> awaiting s = [] \<and> settled s = []"
proof
  assume "resolvedAll s"
  then show "awaiting s = [] \<and> settled s = []"
    using assms resolved_all_details(2,3) by (auto simp: all_inv_def)
next
  assume "awaiting s = [] \<and> settled s = []"
  then have "activeCount s = 0" using assms by (simp add: all_inv_def sched_inv_def)
  then show "resolvedAll s" using assms by (auto simp: all_inv_def progress_inv_def)
qed

lemma payload_items_update_id: "payload\<lparr>p_items := p_items payload\<rparr> = payload"
  by simp

lemma ext_search_result:
  assumes "query_of params \<noteq> []" "clientReady client = Fulfilled u"
    "searchResponse client (query_of params) = Fulfilled (Some results)" "results \<noteq> []"
  shows "AngelscriptMcpServer_performApiSearch client sched (Some params) =
     (let q = query_of params;
          payload = base_payload q (limit_of params) results;
          items = p_items payload
      in if includeDetails_of params then
           (if items = [] then (Returns (Json payload), [CallSearch q])
            else if resolvedAll (settle_all client items sched)
            then (Returns (Json (payload\<lparr>p_items := enriched client items\<rparr>)),
                  CallSearch q # events (settle_all client items sched))
            else (Suspends, CallSearch q # events (settle_all client items sched)))
         else (Returns (Json payload), [CallSearch q]))"
proof -
  let ?q = "query_of params"
  let ?payload = "base_payload ?q (limit_of params) results"
  let ?items = "p_items ?payload"
  let ?s = "settle_all client ?items sched"
  obtain r rs where res: "results = r # rs" using assms(4) by (cases results) auto
  have head: "AngelscriptMcpServer_performApiSearch client sched (Some params) =
     (if includeDetails_of params then
        (case fetch_all client sched ?items of
           (None, evs) \<Rightarrow> (Suspends, CallSearch ?q # evs)
         | (Some s, evs) \<Rightarrow>
             (case assign_details ?items (allDetails s) of
                None \<Rightarrow> (Returns (Text mcp_failed_msg), CallSearch ?q # evs @ [ConsoleError ''angelscript_searchApi MCP tool failed:''])
              | Some items' \<Rightarrow> (Returns (Json (?payload\<lparr>p_items := items'\<rparr>)), CallSearch ?q # evs)))
      else (Returns (Json ?payload), [CallSearch ?q]))"
    using assms(1,2,3) unfolding AngelscriptMcpServer_performApiSearch_def res
    by (simp add: Let_def)
  show ?thesis
  proof (cases "?items = []")
    case True
    then show ?thesis unfolding head by (simp add: fetch_all_def scheduler_init_def Let_def)
  next
    case False
    then have pos: "0 < length ?items" by simp
    have inv: "all_inv client ?items ?s" using settle_all_inv [OF pos] .
    show ?thesis
    proof (cases "resolvedAll ?s")
      case True
      have "assign_details ?items (allDetails ?s) = Some (enriched client ?items)"
        using resolved_assign inv True by (simp add: all_inv_def)
      then show ?thesis using True False pos unfolding head by (simp add: fetch_all_def Let_def)
    next
      case unres: False
      then show ?thesis using False pos unfolding head by (simp add: fetch_all_def Let_def)
    qed
  qed
qed

section \<open>Progress and bounds of the scheduler\<close>

lemma startNext_keeps:
  "allDetails (startNext items s) = allDetails s \<and> settled (startNext items s) = settled s"
proof (induction items s rule: startNext.induct)
  case (1 items s)
  show ?case
  proof (cases "nextIndex s < length items \<and> activeCount s < CONCURRENCY_LIMIT")
    case True
    have "allDetails (dispatch items s) = allDetails s" "settled (dispatch items s) = settled s"
      by (simp_all add: dispatch_def Let_def)
    with 1 True show ?thesis by (subst (1 2) startNext.simps) simp
  next
    case False
    then show ?thesis by (subst (1 2) startNext.simps) auto
  qed
qed

lemma details_bounded:
  assumes "sched_inv client items s"
  shows "length (allDetails s) \<le> length items"
    and "i \<in> set (awaiting s) \<Longrightarrow> length (allDetails s) < length items"
proof -
  have d: "distinct (map fst (allDetails s))" and
    u: "set (awaiting s) \<union> fst ` set (allDetails s) = {0..<nextIndex s}" and
    n: "nextIndex s \<le> length items" and
    dj: "set (awaiting s) \<inter> fst ` set (allDetails s) = {}"
    using assms unfolding sched_inv_def by auto
  have c: "card (fst ` set (allDetails s)) = length (allDetails s)"
    using d by (metis distinct_card length_map set_map)
  have sub: "fst ` set (allDetails s) \<subseteq> {0..<nextIndex s}" using u by blast
  then have "card (fst ` set (allDetails s)) \<le> nextIndex s"
    by (metis card_atLeastLessThan card_mono diff_zero finite_atLeastLessThan)
  with c n show "length (allDetails s) \<le> length items" by simp
  assume i: "i \<in> set (awaiting s)"
  then have "i \<in> {0..<nextIndex s}" "i \<notin> fst ` set (allDetails s)" using u dj by auto
  then have "fst ` set (allDetails s) \<subset> {0..<nextIndex s}" using sub by blast
  then have "card (fst ` set (allDetails s)) < nextIndex s"
    by (metis card_atLeastLessThan diff_zero finite_atLeastLessThan psubset_card_mono)
  with c n show "length (allDetails s) < length items" by simp
qed

lemma settle_decreases:
  assumes "sched_inv client items s" "i \<in> set (awaiting s)"
  shows "remaining items (on_settle client items i s) < remaining items s"
  using details_bounded(2) [OF assms] assms(2)
  by (auto simp: remaining_def on_settle_def split: sum.splits)

lemma finally_decreases:
  assumes "sched_inv client items s" "i \<in> set (settled s)" "\<not> resolvedAll (on_finally items i s)"
  shows "remaining items (on_finally items i s) < remaining items s"
proof -
  have "distinct (settled s)" using assms(1) unfolding sched_inv_def by simp
  moreover have "0 < length (settled s)" using assms(2) by (rule length_pos_if_in_set)
  ultimately have "length (removeAll i (settled s)) < length (settled s)"
    using assms(2) by (simp add: distinct_remove1_removeAll [symmetric] length_remove1)
  then show ?thesis
    using assms(2,3) by (auto simp: remaining_def on_finally_unfold startNext_keeps split: if_splits)
qed

lemma can_complete_from:
  "all_inv client items s \<Longrightarrow> \<exists>more. resolvedAll (foldl (run_tick client items) s more)"
proof (induction "remaining items s" arbitrary: s rule: less_induct)
  case less
  show ?case
  proof (cases "resolvedAll s")
    case True
    then have "resolvedAll (foldl (run_tick client items) s [])" by simp
    then show ?thesis by blast
  next
    case False
    have inv: "sched_inv client items s" using less.prems by (simp add: all_inv_def)
    have "awaiting s \<noteq> [] \<or> settled s \<noteq> []" using False unresolved_active [OF less.prems] by blast
    then obtain t where t: "(\<exists>i. t = Settle i \<and> i \<in> set (awaiting s)) \<or> (\<exists>i. t = Finalize i \<and> i \<in> set (settled s))"
      by (metis list.set_intros(1) neq_Nil_conv)
    let ?s' = "run_tick client items s t"
    have inv': "all_inv client items ?s'" using less.prems by (rule run_tick_all_inv)
    show ?thesis
    proof (cases "resolvedAll ?s'")
      case True
      then have "resolvedAll (foldl (run_tick client items) s [t])" by simp
      then show ?thesis by blast
    next
      case unres: False
      have "remaining items ?s' < remaining items s"
        using t unres settle_decreases [OF inv] finally_decreases [OF inv] by auto
      from less.hyps [OF this inv'] obtain more where "resolvedAll (foldl (run_tick client items) ?s' more)" by blast
      then have "resolvedAll (foldl (run_tick client items) s (t # more))" by simp
      then show ?thesis by blast
    qed
  qed
qed

lemma can_complete:
  assumes "0 < length items"
  shows "\<exists>more. resolvedAll (settle_all client items (sched @ more))"
proof -
  have "all_inv client items (settle_all client items sched)" using settle_all_inv [OF assms] .
  from can_complete_from [OF this] show ?thesis by (simp add: settle_all_def)
qed

lemma settle_all_empty: "settle_all client [] sched = scheduler_init"
proof -
  have a: "startNext [] scheduler_init = scheduler_init" by (subst startNext.simps) simp
  have "foldl (run_tick client []) scheduler_init sched = scheduler_init"
  proof (induction sched)
    case Nil
    show ?case by simp
  next
    case (Cons t sched)
    have "run_tick client [] scheduler_init t = scheduler_init"
      by (cases t) (simp_all add: on_settle_def on_finally_def scheduler_init_def)
    with Cons show ?case by simp
  qed
  with a show ?thesis by (simp add: settle_all_def)
qed

lemma in_flight_take_no_calls:
  assumes "filter is_call evs = []"
  shows "in_flight (take k evs) \<le> 0"
proof -
  have "\<forall>e \<in> set (take k evs). \<not> is_call e"
    using assms by (metis filter_empty_conv in_set_takeD)
  then have "filter is_call (take k evs) = []" by (simp add: filter_empty_conv)
  then show ?thesis by (simp add: in_flight_def)
qed

lemma in_flight_take_search:
  "in_flight (take k (CallSearch q # evs)) = in_flight (take (k - 1) evs)"
  by (cases k) simp_all

lemma settle_all_bounds:
  "in_flight (take k (events (settle_all client items sched))) \<le> CONCURRENCY_LIMIT"
  "0 \<le> activeCount (settle_all client items sched)"
  "activeCount (settle_all client items sched) \<le> CONCURRENCY_LIMIT"
  "int (length (awaiting (settle_all client items sched))) \<le> activeCount (settle_all client items sched)"
  "nextIndex (settle_all client items sched) < length items \<longrightarrow>
     activeCount (settle_all client items sched) = CONCURRENCY_LIMIT"
proof -
  let ?s = "settle_all client items sched"
  have "in_flight (take k (events ?s)) \<le> CONCURRENCY_LIMIT \<and> 0 \<le> activeCount ?s
      \<and> activeCount ?s \<le> CONCURRENCY_LIMIT \<and> int (length (awaiting ?s)) \<le> activeCount ?s
      \<and> (nextIndex ?s < length items \<longrightarrow> activeCount ?s = CONCURRENCY_LIMIT)"
  proof (cases "items = []")
    case True
    then show ?thesis by (simp add: settle_all_empty scheduler_init_def CONCURRENCY_LIMIT_def)
  next
    case False
    then have "all_inv client items ?s" by (simp add: settle_all_inv)
    then show ?thesis
      unfolding all_inv_def sched_inv_def trace_inv_def progress_inv_def by auto
  qed
  then show "in_flight (take k (events ?s)) \<le> CONCURRENCY_LIMIT" "0 \<le> activeCount ?s"
    "activeCount ?s \<le> CONCURRENCY_LIMIT" "int (length (awaiting ?s)) \<le> activeCount ?s"
    "nextIndex ?s < length items \<longrightarrow> activeCount ?s = CONCURRENCY_LIMIT"
    by blast+
qed

lemma ext_in_flight_bound:
  "in_flight (take k (snd (AngelscriptMcpServer_performApiSearch client sched args))) \<le> CONCURRENCY_LIMIT"
proof (cases args)
  case None
  then show ?thesis by (simp add: AngelscriptMcpServer_performApiSearch_def CONCURRENCY_LIMIT_def)
next
  case (Some params)
  let ?q = "query_of params"
  have small: "in_flight (take k evs) \<le> CONCURRENCY_LIMIT" if "filter is_call evs = []" for evs
    using in_flight_take_no_calls [OF that, of k] by (simp add: CONCURRENCY_LIMIT_def)
  show ?thesis
  proof (cases "?q = []")
    case True
    then show ?thesis using Some small [of "[]"] by (simp add: AngelscriptMcpServer_performApiSearch_def)
  next
    case q: False
    show ?thesis
    proof (cases "clientReady client")
      case Pending
      then show ?thesis using Some q small [of "[]"] by (simp add: AngelscriptMcpServer_performApiSearch_def)
    next
      case (Rejected e)
      then show ?thesis using Some q small [of "[ConsoleError ''angelscript_searchApi MCP tool failed:'']"]
        by (simp add: AngelscriptMcpServer_performApiSearch_def)
    next
      case (Fulfilled u)
      show ?thesis
      proof (cases "searchResponse client ?q")
        case Pending
        then show ?thesis using Some q Fulfilled small [of "[CallSearch ?q]"]
          by (simp add: AngelscriptMcpServer_performApiSearch_def Let_def)
      next
        case (Rejected e)
        then show ?thesis using Some q Fulfilled
            small [of "[CallSearch ?q, ConsoleError ''angelscript_searchApi MCP tool failed:'']"]
          by (simp add: AngelscriptMcpServer_performApiSearch_def Let_def)
      next
        case found: (Fulfilled res)
        show ?thesis
        proof (cases "res = None \<or> res = Some []")
          case True
          then show ?thesis using Some q Fulfilled found small [of "[CallSearch ?q]"]
            by (auto simp: AngelscriptMcpServer_performApiSearch_def Let_def)
        next
          case False
          then obtain results where r: "res = Some results" "results \<noteq> []" by auto
          show ?thesis
            unfolding Some ext_search_result [OF q Fulfilled found [unfolded r(1)] r(2)] Let_def
            using small [of "[CallSearch ?q]"] settle_all_bounds(1)
            by (simp add: in_flight_take_search)
        qed
      qed
    qed
  qed
qed

lemma ext_shape:
  "(\<forall>sched. AngelscriptMcpServer_performApiSearch client sched args =
            AngelscriptMcpServer_performApiSearch client [] args)
   \<or> (\<exists>params u results. args = Some params \<and> query_of params \<noteq> [] \<and>
         clientReady client = Fulfilled u \<and>
         searchResponse client (query_of params) = Fulfilled (Some results) \<and> results \<noteq> [] \<and>
         includeDetails_of params \<and> slice0 results (limit_of params) \<noteq> [])"
proof (cases args)
  case None
  then show ?thesis by (simp add: AngelscriptMcpServer_performApiSearch_def)
next
  case (Some params)
  let ?q = "query_of params"
  show ?thesis
  proof (cases "?q = []")
    case True
    then show ?thesis using Some by (simp add: AngelscriptMcpServer_performApiSearch_def)
  next
    case q: False
    show ?thesis
    proof (cases "clientReady client")
      case Pending
      then show ?thesis using Some q by (simp add: AngelscriptMcpServer_performApiSearch_def)
    next
      case (Rejected e)
      then show ?thesis using Some q by (simp add: AngelscriptMcpServer_performApiSearch_def)
    next
      case (Fulfilled u)
      show ?thesis
      proof (cases "searchResponse client ?q")
        case Pending
        then show ?thesis using Some q Fulfilled
          by (simp add: AngelscriptMcpServer_performApiSearch_def Let_def)
      next
        case (Rejected e)
        then show ?thesis using Some q Fulfilled
          by (simp add: AngelscriptMcpServer_performApiSearch_def Let_def)
      next
        case found: (Fulfilled res)
        show ?thesis
        proof (cases "res = None \<or> res = Some []")
          case True
          then show ?thesis using Some q Fulfilled found
            by (auto simp: AngelscriptMcpServer_performApiSearch_def Let_def)
        next
          case False
          then obtain results where r: "res = Some results" "results \<noteq> []" by auto
          note master = ext_search_result [OF q Fulfilled found [unfolded r(1)] r(2)]
          show ?thesis
          proof (cases "includeDetails_of params \<and> slice0 results (limit_of params) \<noteq> []")
            case True
            then show ?thesis using Some q Fulfilled found r by blast
          next
            case False
            then have "\<forall>sched. AngelscriptMcpServer_performApiSearch client sched args =
                AngelscriptMcpServer_performApiSearch client [] args"
              unfolding Some master by (auto simp: Let_def base_payload_def)
            then show ?thesis by blast
          qed
        qed
      qed
    qed
  qed
qed

lemma enriched_nth:
  "length (enriched client items) = length items"
  "i < length items \<Longrightarrow> enriched client items ! i = (items ! i)\<lparr>i_details := answer client items i\<rparr>"
  by (simp_all add: enriched_def)

lemma base_payload_items:
  "p_items (base_payload q lmt results) = map base_item (slice0 results lmt)"
  by (simp add: base_payload_def Let_def)

lemma ext_returns:
  assumes "query_of params \<noteq> []" "clientReady client = Fulfilled u"
    "searchResponse client (query_of params) = Fulfilled (Some results)" "results \<noteq> []"
    "includeDetails_of params"
    "fst (AngelscriptMcpServer_performApiSearch client sched (Some params)) = Returns r"
  shows "r = Json ((base_payload (query_of params) (limit_of params) results)
            \<lparr>p_items := enriched client (map base_item (slice0 results (limit_of params)))\<rparr>)"
proof -
  note master = ext_search_result [OF assms(1-4), of sched]
  show ?thesis
  proof (cases "slice0 results (limit_of params) = []")
    case True
    then show ?thesis using assms(5,6) unfolding master
      by (simp add: Let_def base_payload_items enriched_def) (simp add: base_payload_def)
  next
    case False
    then show ?thesis using assms(5,6) unfolding master
      by (simp add: Let_def base_payload_items split: if_splits)
  qed
qed

text \<open>
  C3: two runs of the extension-integrated search on the same arguments and answers that
  both return, return the same text, whatever the order in which the requests settle. The
  items are the first matches in the order of the provider, and the detail of item
  \<open>i\<close> is the answer to the request sent for item \<open>i\<close>.
\<close>

theorem completion_order_irrelevant:
  "(fst (AngelscriptMcpServer_performApiSearch client sched1 args) = Returns r1 \<and>
    fst (AngelscriptMcpServer_performApiSearch client sched2 args) = Returns r2 \<longrightarrow> r1 = r2)
   \<and> (query_of params \<noteq> [] \<and> clientReady client = Fulfilled u \<and>
       searchResponse client (query_of params) = Fulfilled (Some results) \<and> results \<noteq> [] \<and>
       includeDetails_of params \<and>
       fst (AngelscriptMcpServer_performApiSearch client sched (Some params)) = Returns r \<longrightarrow>
       (\<exists>payload. r = Json payload \<and>
          length (p_items payload) = length (slice0 results (limit_of params)) \<and>
          (\<forall>i < length (p_items payload).
             p_items payload ! i =
               (base_item (slice0 results (limit_of params) ! i))
                 \<lparr>i_details := answer client (map base_item (slice0 results (limit_of params))) i\<rparr>)))"
proof (intro conjI impI)
  assume a: "fst (AngelscriptMcpServer_performApiSearch client sched1 args) = Returns r1 \<and>
    fst (AngelscriptMcpServer_performApiSearch client sched2 args) = Returns r2"
  from ext_shape [of client args] show "r1 = r2"
  proof
    assume "\<forall>sched. AngelscriptMcpServer_performApiSearch client sched args =
            AngelscriptMcpServer_performApiSearch client [] args"
    then have "AngelscriptMcpServer_performApiSearch client sched1 args =
        AngelscriptMcpServer_performApiSearch client sched2 args" by metis
    with a have "Returns r1 = Returns r2" by metis
    then show ?thesis by simp
  next
    assume "\<exists>params u results. args = Some params \<and> query_of params \<noteq> [] \<and>
         clientReady client = Fulfilled u \<and>
         searchResponse client (query_of params) = Fulfilled (Some results) \<and> results \<noteq> [] \<and>
         includeDetails_of params \<and> slice0 results (limit_of params) \<noteq> []"
    then obtain p v rs where h: "args = Some p" "query_of p \<noteq> []" "clientReady client = Fulfilled v"
      "searchResponse client (query_of p) = Fulfilled (Some rs)" "rs \<noteq> []" "includeDetails_of p"
      by blast
    from a have "fst (AngelscriptMcpServer_performApiSearch client sched1 (Some p)) = Returns r1"
      "fst (AngelscriptMcpServer_performApiSearch client sched2 (Some p)) = Returns r2"
      unfolding h(1) by simp_all
    from ext_returns [OF h(2-6) this(1)] ext_returns [OF h(2-6) this(2)] show ?thesis by simp
  qed
next
  assume b: "query_of params \<noteq> [] \<and> clientReady client = Fulfilled u \<and>
       searchResponse client (query_of params) = Fulfilled (Some results) \<and> results \<noteq> [] \<and>
       includeDetails_of params \<and>
       fst (AngelscriptMcpServer_performApiSearch client sched (Some params)) = Returns r"
  then have "r = Json ((base_payload (query_of params) (limit_of params) results)
            \<lparr>p_items := enriched client (map base_item (slice0 results (limit_of params)))\<rparr>)"
    using ext_returns by blast
  then show "\<exists>payload. r = Json payload \<and>
          length (p_items payload) = length (slice0 results (limit_of params)) \<and>
          (\<forall>i < length (p_items payload).
             p_items payload ! i =
               (base_item (slice0 results (limit_of params) ! i))
                 \<lparr>i_details := answer client (map base_item (slice0 results (limit_of params))) i\<rparr>)"
    by (simp add: enriched_nth)
qed

text \<open>
  C1: at every point of every run of the extension-integrated search, for every schedule
  and every argument, at most 10 detail requests have been sent and not yet settled.
  Between any two callbacks of the scheduler \<^verbatim>\<open>activeCount\<close> is from
  0 to 10 and bounds the requests awaiting their answer; while items remain the window is
  full (it is refilled by every \<^verbatim>\<open>finally\<close> callback, not batch by
  batch); and a round of the loop, entered only below the limit, ends at 10 at most.
\<close>

theorem enrichment_window_bound:
  "(\<forall>k. in_flight (take k (snd (AngelscriptMcpServer_performApiSearch client sched args))) \<le> 10)
   \<and> (\<forall>k. in_flight (take k (events (settle_all client items sched))) \<le> 10)
   \<and> 0 \<le> activeCount (settle_all client items sched)
   \<and> activeCount (settle_all client items sched) \<le> 10
   \<and> int (length (awaiting (settle_all client items sched))) \<le> activeCount (settle_all client items sched)
   \<and> (nextIndex (settle_all client items sched) < length items \<longrightarrow>
        activeCount (settle_all client items sched) = 10)
   \<and> (activeCount s < CONCURRENCY_LIMIT \<longrightarrow> activeCount (dispatch items s) \<le> 10)"
proof -
  have "activeCount s < CONCURRENCY_LIMIT \<longrightarrow> activeCount (dispatch items s) \<le> 10"
    by (simp add: dispatch_def Let_def CONCURRENCY_LIMIT_def)
  then show ?thesis
    using ext_in_flight_bound [unfolded CONCURRENCY_LIMIT_def]
      settle_all_bounds [unfolded CONCURRENCY_LIMIT_def]
    by blast
qed

text \<open>
  With 25 items the window fills to exactly 10 and is refilled after a settlement.
\<close>

theorem enrichment_window_bound_witness:
  "nextIndex (settle_all (example_client 25) (map base_item (example_matches 25))
       [Settle 3, Finalize 3, Settle 0]) < length (map base_item (example_matches 25))
   \<and> activeCount (settle_all (example_client 25) (map base_item (example_matches 25))
       [Settle 3, Finalize 3, Settle 0]) = 10
   \<and> activeCount scheduler_init < CONCURRENCY_LIMIT
   \<and> activeCount (dispatch (map base_item (example_matches 25)) scheduler_init) \<le> 10
   \<and> in_flight (take 11 (snd (AngelscriptMcpServer_performApiSearch (example_client 25)
        [Settle 3, Finalize 3, Settle 0] (Some (example_params JUndefined JUndefined))))) = 10
   \<and> in_flight (take 14 (snd (AngelscriptMcpServer_performApiSearch (example_client 25)
        [Settle 3, Finalize 3, Settle 0] (Some (example_params JUndefined JUndefined))))) \<le> 10"
proof -
  let ?items = "map base_item (example_matches 25)"
  let ?sched = "[Settle 3, Finalize 3, Settle 0]"
  note inst = enrichment_window_bound [of "example_client 25" ?sched
      "Some (example_params JUndefined JUndefined)" ?items scheduler_init]
  have h1: "nextIndex (settle_all (example_client 25) ?items ?sched) < length ?items"
    by code_simp
  have h2: "activeCount scheduler_init < CONCURRENCY_LIMIT"
    by (simp add: scheduler_init_def CONCURRENCY_LIMIT_def)
  have peak: "in_flight (take 11 (snd (AngelscriptMcpServer_performApiSearch (example_client 25)
        ?sched (Some (example_params JUndefined JUndefined))))) = 10"
    by code_simp
  have c1: "activeCount (settle_all (example_client 25) ?items ?sched) = 10"
    using inst h1 by blast
  have c2: "activeCount (dispatch ?items scheduler_init) \<le> 10"
    using inst h2 by blast
  have c3: "in_flight (take 14 (snd (AngelscriptMcpServer_performApiSearch (example_client 25)
        ?sched (Some (example_params JUndefined JUndefined))))) \<le> 10"
    using inst by blast
  show ?thesis using h1 h2 peak c1 c2 c3 by blast
qed

text \<open>
  C9: with no items the enrichment step completes at once, for every schedule: no request
  is sent, no detail is assigned, and the call returns. The promise of the scheduler would
  never resolve for an empty list; the guard \<^verbatim>\<open>totalItems > 0\<close>
  keeps the step from awaiting it.
\<close>

theorem empty_enrichment_returns_at_once:
  "fetch_all client sched [] = (Some scheduler_init, [])
   \<and> assign_details [] (allDetails scheduler_init) = Some []
   \<and> \<not> resolvedAll (settle_all client [] sched)
   \<and> events (settle_all client [] sched) = []
   \<and> (query_of params \<noteq> [] \<and> clientReady client = Fulfilled u \<and>
       searchResponse client (query_of params) = Fulfilled (Some results) \<and> results \<noteq> [] \<and>
       slice0 results (limit_of params) = [] \<longrightarrow>
       AngelscriptMcpServer_performApiSearch client sched (Some params) =
         (Returns (Json (base_payload (query_of params) (limit_of params) results)),
          [CallSearch (query_of params)]))"
proof -
  have a: "fetch_all client sched [] = (Some scheduler_init, [])"
    by (simp add: fetch_all_def)
  have b: "assign_details [] (allDetails scheduler_init) = Some []"
    by (simp add: scheduler_init_def)
  have c: "\<not> resolvedAll (settle_all client [] sched)" "events (settle_all client [] sched) = []"
    by (simp_all add: settle_all_empty scheduler_init_def)
  have d: "AngelscriptMcpServer_performApiSearch client sched (Some params) =
         (Returns (Json (base_payload (query_of params) (limit_of params) results)),
          [CallSearch (query_of params)])"
    if "query_of params \<noteq> []" "clientReady client = Fulfilled u"
       "searchResponse client (query_of params) = Fulfilled (Some results)" "results \<noteq> []"
       "slice0 results (limit_of params) = []"
    unfolding ext_search_result [OF that(1-4)] using that(5)
    by (simp add: Let_def base_payload_items)
  show ?thesis using a b c d by blast
qed

text \<open>
  The empty item list arises from a NaN limit.
\<close>

theorem empty_enrichment_witness:
  "query_of (example_params (JNum JNaN) JUndefined) \<noteq> []
   \<and> clientReady (example_client 3) = Fulfilled ()
   \<and> searchResponse (example_client 3) (query_of (example_params (JNum JNaN) JUndefined)) =
       Fulfilled (Some (example_matches 3))
   \<and> example_matches 3 \<noteq> []
   \<and> slice0 (example_matches 3) (limit_of (example_params (JNum JNaN) JUndefined)) = []
   \<and> AngelscriptMcpServer_performApiSearch (example_client 3) [] (Some (example_params (JNum JNaN) JUndefined)) =
       (Returns (Json (base_payload (query_of (example_params (JNum JNaN) JUndefined))
           (limit_of (example_params (JNum JNaN) JUndefined)) (example_matches 3))),
        [CallSearch (query_of (example_params (JNum JNaN) JUndefined))])"
proof -
  let ?p = "example_params (JNum JNaN) JUndefined"
  have h1: "query_of ?p \<noteq> []" by code_simp
  have h2: "clientReady (example_client 3) = Fulfilled ()" by (simp add: example_client_def)
  have h3: "searchResponse (example_client 3) (query_of ?p) = Fulfilled (Some (example_matches 3))"
    by (simp add: example_client_def)
  have h4: "example_matches 3 \<noteq> []" by code_simp
  have h5: "slice0 (example_matches 3) (limit_of ?p) = []"
    by (simp add: limit_of_def example_params_def)
  from empty_enrichment_returns_at_once [of "example_client 3" "[]" ?p "()" "example_matches 3"]
    h1 h2 h3 h4 h5
  have "AngelscriptMcpServer_performApiSearch (example_client 3) [] (Some ?p) =
       (Returns (Json (base_payload (query_of ?p) (limit_of ?p) (example_matches 3))),
        [CallSearch (query_of ?p)])"
    by blast
  with h1 h2 h3 h4 h5 show ?thesis by blast
qed

text \<open>
  Two different settlement orders over three matches: the same payload, different event orders.
\<close>

theorem completion_order_witness:
  "fst (AngelscriptMcpServer_performApiSearch (example_client 3)
         [Settle 0, Finalize 0, Settle 1, Finalize 1, Settle 2, Finalize 2]
         (Some (example_params JUndefined JUndefined))) =
     Returns (Json \<lparr>p_query = ''GetActor'', p_total = 3, p_returned = 3, p_truncated = False,
       p_items = [\<lparr>i_label = ''Actor'', i_type = JStr ''class'', i_data = JArr [JStr ''method'', JStr ''AActor'', JNum (JFin 0)], i_details = Some ''doc''\<rparr>,
                  \<lparr>i_label = ''Actor'', i_type = JStr ''class'', i_data = JArr [JStr ''method'', JStr ''AActor'', JNum (JFin 1)], i_details = None\<rparr>,
                  \<lparr>i_label = ''Actor'', i_type = JStr ''class'', i_data = JArr [JStr ''method'', JStr ''AActor'', JNum (JFin 2)], i_details = Some ''doc''\<rparr>]\<rparr>)
   \<and> fst (AngelscriptMcpServer_performApiSearch (example_client 3)
         [Settle 2, Settle 1, Settle 0, Finalize 1, Finalize 2, Finalize 0]
         (Some (example_params JUndefined JUndefined))) =
       fst (AngelscriptMcpServer_performApiSearch (example_client 3)
         [Settle 0, Finalize 0, Settle 1, Finalize 1, Settle 2, Finalize 2]
         (Some (example_params JUndefined JUndefined)))
   \<and> snd (AngelscriptMcpServer_performApiSearch (example_client 3)
         [Settle 2, Settle 1, Settle 0, Finalize 1, Finalize 2, Finalize 0]
         (Some (example_params JUndefined JUndefined))) \<noteq>
       snd (AngelscriptMcpServer_performApiSearch (example_client 3)
         [Settle 0, Finalize 0, Settle 1, Finalize 1, Settle 2, Finalize 2]
         (Some (example_params JUndefined JUndefined)))"
proof -
  let ?c = "example_client 3"
  let ?p = "example_params JUndefined JUndefined"
  let ?s1 = "[Settle 0, Finalize 0, Settle 1, Finalize 1, Settle 2, Finalize 2]"
  let ?s2 = "[Settle 2, Settle 1, Settle 0, Finalize 1, Finalize 2, Finalize 0]"
  let ?r = "Json \<lparr>p_query = ''GetActor'', p_total = 3, p_returned = 3, p_truncated = False,
       p_items = [\<lparr>i_label = ''Actor'', i_type = JStr ''class'', i_data = JArr [JStr ''method'', JStr ''AActor'', JNum (JFin 0)], i_details = Some ''doc''\<rparr>,
                  \<lparr>i_label = ''Actor'', i_type = JStr ''class'', i_data = JArr [JStr ''method'', JStr ''AActor'', JNum (JFin 1)], i_details = None\<rparr>,
                  \<lparr>i_label = ''Actor'', i_type = JStr ''class'', i_data = JArr [JStr ''method'', JStr ''AActor'', JNum (JFin 2)], i_details = Some ''doc''\<rparr>]\<rparr>"
  have h1: "fst (AngelscriptMcpServer_performApiSearch ?c ?s1 (Some ?p)) = Returns ?r"
    by code_simp
  have "fst (AngelscriptMcpServer_performApiSearch ?c ?s2 (Some ?p)) \<noteq> Suspends
      \<and> fst (AngelscriptMcpServer_performApiSearch ?c ?s2 (Some ?p)) \<noteq> Throws params_undefined"
    by code_simp
  then obtain r2 where h2: "fst (AngelscriptMcpServer_performApiSearch ?c ?s2 (Some ?p)) = Returns r2"
    by (cases "fst (AngelscriptMcpServer_performApiSearch ?c ?s2 (Some ?p))")
       (auto simp: AngelscriptMcpServer_performApiSearch_def Let_def
          split: option.splits promise.splits list.splits if_splits prod.splits)
  from completion_order_irrelevant [of ?c ?s1 "Some ?p" ?r ?s2 r2] h1 h2
  have "?r = r2" by blast
  with h1 h2 have same: "fst (AngelscriptMcpServer_performApiSearch ?c ?s2 (Some ?p)) =
      fst (AngelscriptMcpServer_performApiSearch ?c ?s1 (Some ?p))" by simp
  have differ: "snd (AngelscriptMcpServer_performApiSearch ?c ?s2 (Some ?p)) \<noteq>
      snd (AngelscriptMcpServer_performApiSearch ?c ?s1 (Some ?p))"
    by code_simp
  show ?thesis using h1 same differ by blast
qed

section \<open>Payload, flags and dispatch\<close>

lemma enrich_loop_length: "length (fst (enrich_loop prov i items)) = length items"
  by (induction items arbitrary: i) (simp_all add: split_beta Let_def)

lemma enrich_loop_nth:
  "j < length items \<Longrightarrow>
   fst (enrich_loop prov i items) ! j = fst (enrich_item prov (i + j) (items ! j))"
proof (induction items arbitrary: i j)
  case Nil
  then show ?case by simp
next
  case (Cons item rest)
  show ?case
  proof (cases j)
    case 0
    then show ?thesis by (simp add: split_beta Let_def)
  next
    case (Suc j')
    with Cons.prems have "j' < length rest" by simp
    from Cons.IH [OF this, of "Suc i"] Suc show ?thesis by (simp add: split_beta Let_def)
  qed
qed

lemma enrich_loop_events:
  "snd (enrich_loop prov i items) =
     concat (map (\<lambda>j. snd (enrich_item prov (i + j) (items ! j))) [0..<length items])"
proof (induction items arbitrary: i)
  case Nil
  show ?case by simp
next
  case (Cons item rest)
  have "map (\<lambda>j. snd (enrich_item prov (i + j) ((item # rest) ! j))) [0..<length (item # rest)] =
      snd (enrich_item prov i item) # map (\<lambda>j. snd (enrich_item prov (Suc i + j) (rest ! j))) [0..<length rest]"
    by (simp add: map_upt_Suc del: upt_Suc)
  with Cons [of "Suc i"] show ?case by (simp add: split_beta Let_def)
qed

lemma enrich_item_keeps:
  "(fst (enrich_item prov i item))\<lparr>i_details := None\<rparr> = item\<lparr>i_details := None\<rparr>"
  by (simp add: enrich_item_def split: sum.splits)

lemma enrich_loop_keeps:
  "map (\<lambda>item. item\<lparr>i_details := None\<rparr>) (fst (enrich_loop prov i items)) =
   map (\<lambda>item. item\<lparr>i_details := None\<rparr>) items"
  by (intro nth_equalityI) (simp_all add: enrich_loop_length enrich_loop_nth enrich_item_keeps)

lemma standalone_search_result:
  assumes "query_of params \<noteq> []" "HasTypesFromUnreal prov"
    "GetAPISearch prov (query_of params) = Inr (Some results)" "results \<noteq> []"
  shows "performApiSearch prov (Some params) =
     (let q = query_of params;
          payload = base_payload q (limit_of params) results;
          items = p_items payload
      in if includeDetails_of params then
           (Returns (Json (payload\<lparr>p_items := fst (enrich_loop prov 0 items)\<rparr>)),
            [CallHasTypes, CallSearch q] @ snd (enrich_loop prov 0 items))
         else (Returns (Json payload), [CallHasTypes, CallSearch q]))"
proof -
  obtain r rs where res: "results = r # rs" using assms(4) by (cases results) auto
  show ?thesis
    using assms(1,2,3) unfolding performApiSearch_def res
    by (simp add: Let_def split_beta)
qed

lemma slice0_valid:
  assumes "valid_limit (JFin r)"
  shows "slice0 results (JFin r) = take (nat \<lfloor>r\<rfloor>) results"
proof -
  have "0 \<le> r" "0 \<le> \<lfloor>r\<rfloor>" using assms by auto
  then show ?thesis by (auto simp: Let_def min_def)
qed

lemma base_payload_first_matches:
  assumes "valid_limit (JFin r)"
  shows "first_matches q (nat \<lfloor>r\<rfloor>) results (base_payload q (JFin r) results)"
  unfolding first_matches_def base_payload_def Let_def slice0_valid [OF assms]
  by (auto simp: base_item_def o_def)

lemma first_matches_items:
  assumes "first_matches q n results payload"
    "map (\<lambda>item. item\<lparr>i_details := None\<rparr>) items' = map (\<lambda>item. item\<lparr>i_details := None\<rparr>) (p_items payload)"
  shows "first_matches q n results (payload\<lparr>p_items := items'\<rparr>)"
  using assms by (simp add: first_matches_def)

lemma enriched_keeps:
  "map (\<lambda>item. item\<lparr>i_details := None\<rparr>) (enriched client items) =
   map (\<lambda>item. item\<lparr>i_details := None\<rparr>) items"
  by (intro nth_equalityI) (simp_all add: enriched_nth)

lemma payload_first_matches:
  "valid_limit (limit_of params) \<and> limit_of params = JFin r \<and> query_of params \<noteq> [] \<and> results \<noteq> [] \<longrightarrow>
     (HasTypesFromUnreal prov \<and> GetAPISearch prov (query_of params) = Inr (Some results) \<longrightarrow>
        (\<exists>payload. fst (performApiSearch prov (Some params)) = Returns (Json payload) \<and>
           first_matches (query_of params) (nat \<lfloor>r\<rfloor>) results payload))
   \<and> (clientReady client = Fulfilled u \<and>
        searchResponse client (query_of params) = Fulfilled (Some results) \<longrightarrow>
        (fst (AngelscriptMcpServer_performApiSearch client sched (Some params)) = Suspends \<or>
         (\<exists>payload. fst (AngelscriptMcpServer_performApiSearch client sched (Some params)) = Returns (Json payload) \<and>
           first_matches (query_of params) (nat \<lfloor>r\<rfloor>) results payload)))"
proof (intro impI conjI)
  assume a: "valid_limit (limit_of params) \<and> limit_of params = JFin r \<and> query_of params \<noteq> [] \<and> results \<noteq> []"
  then have v: "valid_limit (JFin r)" and l: "limit_of params = JFin r"
    and q: "query_of params \<noteq> []" and rs: "results \<noteq> []" by auto
  let ?payload = "base_payload (query_of params) (JFin r) results"
  have base: "first_matches (query_of params) (nat \<lfloor>r\<rfloor>) results ?payload"
    using v by (rule base_payload_first_matches)
  {
    assume "HasTypesFromUnreal prov \<and> GetAPISearch prov (query_of params) = Inr (Some results)"
    then have h: "HasTypesFromUnreal prov" "GetAPISearch prov (query_of params) = Inr (Some results)" by auto
    have "first_matches (query_of params) (nat \<lfloor>r\<rfloor>) results
        (?payload\<lparr>p_items := fst (enrich_loop prov 0 (p_items ?payload))\<rparr>)"
      using base by (rule first_matches_items) (rule enrich_loop_keeps)
    with base show "\<exists>payload. fst (performApiSearch prov (Some params)) = Returns (Json payload) \<and>
           first_matches (query_of params) (nat \<lfloor>r\<rfloor>) results payload"
      unfolding standalone_search_result [OF q h rs] l by (simp add: Let_def)
  }
  {
    assume "clientReady client = Fulfilled u \<and>
        searchResponse client (query_of params) = Fulfilled (Some results)"
    then have h: "clientReady client = Fulfilled u"
      "searchResponse client (query_of params) = Fulfilled (Some results)" by auto
    have "first_matches (query_of params) (nat \<lfloor>r\<rfloor>) results
        (?payload\<lparr>p_items := enriched client (p_items ?payload)\<rparr>)"
      using base by (rule first_matches_items) (rule enriched_keeps)
    with base show "fst (AngelscriptMcpServer_performApiSearch client sched (Some params)) = Suspends \<or>
         (\<exists>payload. fst (AngelscriptMcpServer_performApiSearch client sched (Some params)) = Returns (Json payload) \<and>
           first_matches (query_of params) (nat \<lfloor>r\<rfloor>) results payload)"
      unfolding ext_search_result [OF q h rs] l by (simp add: Let_def)
  }
qed

text \<open>
  C5: for a non-empty result list and a validated limit \<open>r\<close>, the payload of
  either server holds exactly the first \<open>r\<close> matches in the provider's order,
  \<^verbatim>\<open>total\<close> is the number of results,
  \<^verbatim>\<open>returned\<close> is the minimum of total and limit, and
  \<^verbatim>\<open>truncated\<close> holds exactly when total exceeds returned. The
  standalone server always returns this payload; the extension-integrated server returns it
  unless it is still waiting for detail requests.
\<close>

theorem payload_counts_and_order:
  "valid_limit (limit_of params) \<and> limit_of params = JFin r \<and> query_of params \<noteq> [] \<and> results \<noteq> [] \<longrightarrow>
     (HasTypesFromUnreal prov \<and> GetAPISearch prov (query_of params) = Inr (Some results) \<longrightarrow>
        (\<exists>payload. fst (performApiSearch prov (Some params)) = Returns (Json payload) \<and>
           map (\<lambda>item. item\<lparr>i_details := None\<rparr>) (p_items payload) =
             map base_item (take (nat \<lfloor>r\<rfloor>) results) \<and>
           p_total payload = length results \<and>
           p_returned payload = min (p_total payload) (nat \<lfloor>r\<rfloor>) \<and>
           p_truncated payload = (p_total payload > p_returned payload)))
   \<and> (clientReady client = Fulfilled u \<and>
        searchResponse client (query_of params) = Fulfilled (Some results) \<longrightarrow>
        (fst (AngelscriptMcpServer_performApiSearch client sched (Some params)) = Suspends \<or>
         (\<exists>payload. fst (AngelscriptMcpServer_performApiSearch client sched (Some params)) = Returns (Json payload) \<and>
           map (\<lambda>item. item\<lparr>i_details := None\<rparr>) (p_items payload) =
             map base_item (take (nat \<lfloor>r\<rfloor>) results) \<and>
           p_total payload = length results \<and>
           p_returned payload = min (p_total payload) (nat \<lfloor>r\<rfloor>) \<and>
           p_truncated payload = (p_total payload > p_returned payload))))"
proof (intro impI conjI)
  assume a: "valid_limit (limit_of params) \<and> limit_of params = JFin r \<and> query_of params \<noteq> [] \<and> results \<noteq> []"
  note both = payload_first_matches [of params r results prov client u sched, rule_format, OF a,
      unfolded first_matches_def]
  {
    assume "HasTypesFromUnreal prov \<and> GetAPISearch prov (query_of params) = Inr (Some results)"
    from both [THEN conjunct1, rule_format, OF this]
    show "\<exists>payload. fst (performApiSearch prov (Some params)) = Returns (Json payload) \<and>
           map (\<lambda>item. item\<lparr>i_details := None\<rparr>) (p_items payload) =
             map base_item (take (nat \<lfloor>r\<rfloor>) results) \<and>
           p_total payload = length results \<and>
           p_returned payload = min (p_total payload) (nat \<lfloor>r\<rfloor>) \<and>
           p_truncated payload = (p_total payload > p_returned payload)"
      by auto
  }
  {
    assume "clientReady client = Fulfilled u \<and>
        searchResponse client (query_of params) = Fulfilled (Some results)"
    from both [THEN conjunct2, rule_format, OF this]
    show "fst (AngelscriptMcpServer_performApiSearch client sched (Some params)) = Suspends \<or>
         (\<exists>payload. fst (AngelscriptMcpServer_performApiSearch client sched (Some params)) = Returns (Json payload) \<and>
           map (\<lambda>item. item\<lparr>i_details := None\<rparr>) (p_items payload) =
             map base_item (take (nat \<lfloor>r\<rfloor>) results) \<and>
           p_total payload = length results \<and>
           p_returned payload = min (p_total payload) (nat \<lfloor>r\<rfloor>) \<and>
           p_truncated payload = (p_total payload > p_returned payload))"
      by auto
  }
qed

text \<open>
  150 matches and limit 100: total 150, returned 100, truncated.
\<close>

theorem payload_counts_witness:
  "valid_limit (limit_of (example_params (JNum (JFin 100)) JUndefined))
   \<and> limit_of (example_params (JNum (JFin 100)) JUndefined) = JFin 100
   \<and> query_of (example_params (JNum (JFin 100)) JUndefined) = ''GetActor''
   \<and> example_matches 150 \<noteq> []
   \<and> HasTypesFromUnreal (example_provider 150 True)
   \<and> GetAPISearch (example_provider 150 True) ''GetActor'' = Inr (Some (example_matches 150))
   \<and> clientReady (example_client 150) = Fulfilled ()
   \<and> searchResponse (example_client 150) ''GetActor'' = Fulfilled (Some (example_matches 150))
   \<and> (\<exists>payload. fst (performApiSearch (example_provider 150 True)
          (Some (example_params (JNum (JFin 100)) JUndefined))) = Returns (Json payload) \<and>
        p_total payload = 150 \<and> p_returned payload = 100 \<and> p_truncated payload)
   \<and> (\<exists>payload. fst (AngelscriptMcpServer_performApiSearch (example_client 150) []
          (Some (example_params (JNum (JFin 100)) (JBool False)))) = Returns (Json payload) \<and>
        p_total payload = 150 \<and> p_returned payload = 100 \<and> p_truncated payload)"
proof -
  let ?p = "example_params (JNum (JFin 100)) JUndefined"
  let ?p' = "example_params (JNum (JFin 100)) (JBool False)"
  have l: "limit_of ?p = JFin 100" "limit_of ?p' = JFin 100" by (simp_all add: limit_of_def example_params_def)
  then have v: "valid_limit (limit_of ?p)" "valid_limit (limit_of ?p')" by simp_all
  have q: "query_of ?p = ''GetActor''" "query_of ?p' = ''GetActor''" by code_simp+
  have n: "example_matches 150 \<noteq> []" "length (example_matches 150) = 150" by (simp_all add: example_matches_def)
  have h: "HasTypesFromUnreal (example_provider 150 True)"
    "GetAPISearch (example_provider 150 True) ''GetActor'' = Inr (Some (example_matches 150))"
    by (simp_all add: example_provider_def)
  have c: "clientReady (example_client 150) = Fulfilled ()"
    "searchResponse (example_client 150) ''GetActor'' = Fulfilled (Some (example_matches 150))"
    by (simp_all add: example_client_def)
  have ns: "fst (AngelscriptMcpServer_performApiSearch (example_client 150) [] (Some ?p')) \<noteq> Suspends"
    unfolding ext_search_result [OF _ c(1) c(2) [folded q(2)] n(1), unfolded q(2), simplified]
    by (simp add: Let_def includeDetails_of_def example_params_def)
  from payload_counts_and_order [of ?p 100 "example_matches 150" "example_provider 150 True" "example_client 150" "()" "[]"]
    v l q n h
  have 1: "\<exists>payload. fst (performApiSearch (example_provider 150 True) (Some ?p)) = Returns (Json payload) \<and>
        p_total payload = 150 \<and> p_returned payload = 100 \<and> p_truncated payload"
    by auto
  from payload_counts_and_order [of ?p' 100 "example_matches 150" "example_provider 150 True" "example_client 150" "()" "[]"]
    v l q n c ns
  have 2: "\<exists>payload. fst (AngelscriptMcpServer_performApiSearch (example_client 150) [] (Some ?p')) = Returns (Json payload) \<and>
        p_total payload = 150 \<and> p_returned payload = 100 \<and> p_truncated payload"
    by auto
  show ?thesis using v(1) l(1) q(1) n(1) h c 1 2 by blast
qed

text \<open>
  C10: when the limit argument is NaN the validated limit is NaN, the slice of the results
  is empty, and for every non-empty result list both servers return the payload with
  \<^verbatim>\<open>returned = 0\<close>, no items and
  \<^verbatim>\<open>truncated = true\<close>, after the search call alone; 0 is not the
  minimum of total and any limit from 1 to 1000.
\<close>

theorem nan_limit_empties_payload:
  "limit params = JNum JNaN \<and> query_of params \<noteq> [] \<and> results \<noteq> [] \<longrightarrow>
     limit_of params = JNaN
   \<and> (HasTypesFromUnreal prov \<and> GetAPISearch prov (query_of params) = Inr (Some results) \<longrightarrow>
        performApiSearch prov (Some params) =
          (Returns (Json \<lparr>p_query = query_of params, p_total = length results, p_returned = 0,
                          p_truncated = True, p_items = []\<rparr>),
           [CallHasTypes, CallSearch (query_of params)]))
   \<and> (clientReady client = Fulfilled u \<and>
        searchResponse client (query_of params) = Fulfilled (Some results) \<longrightarrow>
        AngelscriptMcpServer_performApiSearch client sched (Some params) =
          (Returns (Json \<lparr>p_query = query_of params, p_total = length results, p_returned = 0,
                          p_truncated = True, p_items = []\<rparr>),
           [CallSearch (query_of params)]))
   \<and> (\<forall>n. 1 \<le> n \<and> n \<le> 1000 \<longrightarrow> (0 :: nat) \<noteq> min (length results) n)"
proof (intro impI conjI allI)
  assume a: "limit params = JNum JNaN \<and> query_of params \<noteq> [] \<and> results \<noteq> []"
  then have q: "query_of params \<noteq> []" and rs: "results \<noteq> []" by auto
  show l: "limit_of params = JNaN" using a by (simp add: limit_of_def)
  have base: "base_payload (query_of params) JNaN results =
      \<lparr>p_query = query_of params, p_total = length results, p_returned = 0,
       p_truncated = True, p_items = []\<rparr>"
    using rs by (simp add: base_payload_def)
  {
    assume "HasTypesFromUnreal prov \<and> GetAPISearch prov (query_of params) = Inr (Some results)"
    then have h: "HasTypesFromUnreal prov" "GetAPISearch prov (query_of params) = Inr (Some results)" by auto
    show "performApiSearch prov (Some params) =
          (Returns (Json \<lparr>p_query = query_of params, p_total = length results, p_returned = 0,
                          p_truncated = True, p_items = []\<rparr>),
           [CallHasTypes, CallSearch (query_of params)])"
      unfolding standalone_search_result [OF q h rs] by (simp add: Let_def l base)
  }
  {
    assume "clientReady client = Fulfilled u \<and>
        searchResponse client (query_of params) = Fulfilled (Some results)"
    then have h: "clientReady client = Fulfilled u"
      "searchResponse client (query_of params) = Fulfilled (Some results)" by auto
    show "AngelscriptMcpServer_performApiSearch client sched (Some params) =
          (Returns (Json \<lparr>p_query = query_of params, p_total = length results, p_returned = 0,
                          p_truncated = True, p_items = []\<rparr>),
           [CallSearch (query_of params)])"
      unfolding ext_search_result [OF q h rs] by (simp add: Let_def l base)
  }
  fix n :: nat
  assume "1 \<le> n \<and> n \<le> 1000"
  then show "0 \<noteq> min (length results) n" using rs by (cases results) auto
qed

text \<open>
  Three matches and a NaN limit.
\<close>

theorem nan_limit_witness:
  "limit (example_params (JNum JNaN) JUndefined) = JNum JNaN
   \<and> query_of (example_params (JNum JNaN) JUndefined) = ''GetActor''
   \<and> example_matches 3 \<noteq> []
   \<and> HasTypesFromUnreal (example_provider 3 True)
   \<and> GetAPISearch (example_provider 3 True) ''GetActor'' = Inr (Some (example_matches 3))
   \<and> clientReady (example_client 3) = Fulfilled ()
   \<and> searchResponse (example_client 3) ''GetActor'' = Fulfilled (Some (example_matches 3))
   \<and> performApiSearch (example_provider 3 True) (Some (example_params (JNum JNaN) JUndefined)) =
       (Returns (Json \<lparr>p_query = ''GetActor'', p_total = 3, p_returned = 0,
                       p_truncated = True, p_items = []\<rparr>),
        [CallHasTypes, CallSearch ''GetActor''])
   \<and> AngelscriptMcpServer_performApiSearch (example_client 3) [] (Some (example_params (JNum JNaN) JUndefined)) =
       (Returns (Json \<lparr>p_query = ''GetActor'', p_total = 3, p_returned = 0,
                       p_truncated = True, p_items = []\<rparr>),
        [CallSearch ''GetActor''])
   \<and> (0 :: nat) \<noteq> min (length (example_matches 3)) 500"
proof -
  let ?p = "example_params (JNum JNaN) JUndefined"
  have l: "limit ?p = JNum JNaN" by (simp add: example_params_def)
  have q: "query_of ?p = ''GetActor''" by code_simp
  have n: "example_matches 3 \<noteq> []" "length (example_matches 3) = 3" by (simp_all add: example_matches_def)
  have h: "HasTypesFromUnreal (example_provider 3 True)"
    "GetAPISearch (example_provider 3 True) ''GetActor'' = Inr (Some (example_matches 3))"
    by (simp_all add: example_provider_def)
  have c: "clientReady (example_client 3) = Fulfilled ()"
    "searchResponse (example_client 3) ''GetActor'' = Fulfilled (Some (example_matches 3))"
    by (simp_all add: example_client_def)
  note inst = nan_limit_empties_payload [of ?p "example_matches 3" "example_provider 3 True"
      "example_client 3" "()" "[]", unfolded q n(2)]
  have 1: "performApiSearch (example_provider 3 True) (Some ?p) =
       (Returns (Json \<lparr>p_query = ''GetActor'', p_total = 3, p_returned = 0,
                       p_truncated = True, p_items = []\<rparr>),
        [CallHasTypes, CallSearch ''GetActor''])"
    using inst l n(1) h by simp
  have 2: "AngelscriptMcpServer_performApiSearch (example_client 3) [] (Some ?p) =
       (Returns (Json \<lparr>p_query = ''GetActor'', p_total = 3, p_returned = 0,
                       p_truncated = True, p_items = []\<rparr>),
        [CallSearch ''GetActor''])"
    using inst l n(1) c by simp
  have 3: "(0 :: nat) \<noteq> min (length (example_matches 3)) 500"
    using inst l n(1) by (simp add: n(2))
  show ?thesis using l q n(1) h c 1 2 3 by simp
qed

text \<open>
  C8: for a tool name other than \<^verbatim>\<open>angelscript_searchApi\<close> the
  handler of either server returns (it neither throws nor stays suspended) the text
  \<^verbatim>\<open>Unknown tool: \<close> followed by the name, flagged as an error, and
  no call of the provider is made.
\<close>

theorem unknown_tool_response:
  "name \<noteq> ''angelscript_searchApi'' \<longrightarrow>
     callTool prov name args =
       (Returns \<lparr>content_text = Text (''Unknown tool: '' @ name), isError = True\<rparr>, [])
   \<and> AngelscriptMcpServer_callTool client sched name args =
       (Returns \<lparr>content_text = Text (''Unknown tool: '' @ name), isError = True\<rparr>, [])"
  by (simp add: callTool_def AngelscriptMcpServer_callTool_def)

text \<open>
  The tool name \<^verbatim>\<open>foo\<close>.
\<close>

theorem unknown_tool_witness:
  "''foo'' \<noteq> ''angelscript_searchApi''
   \<and> callTool (example_provider 3 True) ''foo'' None =
       (Returns \<lparr>content_text = Text ''Unknown tool: foo'', isError = True\<rparr>, [])
   \<and> AngelscriptMcpServer_callTool (example_client 3) [] ''foo''
        (Some (example_params JUndefined JUndefined)) =
       (Returns \<lparr>content_text = Text ''Unknown tool: foo'', isError = True\<rparr>, [])"
proof -
  have h: "''foo'' \<noteq> ''angelscript_searchApi''" by simp
  from unknown_tool_response [of "''foo''" "example_provider 3 True" None]
    unknown_tool_response [of "''foo''" _ "Some (example_params JUndefined JUndefined)" "example_client 3" "[]"]
    h show ?thesis by simp
qed

lemma params_update_includeDetails:
  "query_of (params\<lparr>includeDetails := v\<rparr>) = query_of params"
  "limit_of (params\<lparr>includeDetails := v\<rparr>) = limit_of params"
  "includeDetails_of (params\<lparr>includeDetails := v\<rparr>) = (v \<noteq> JBool False)"
  by (simp_all add: query_of_def limit_of_def includeDetails_of_def)

lemma base_payload_no_details:
  "item \<in> set (p_items (base_payload q lmt results)) \<Longrightarrow> i_details item = None"
  by (auto simp: base_payload_items base_item_def)

lemma standalone_without_details:
  assumes "\<not> includeDetails_of params"
  shows "filter is_call (snd (performApiSearch prov (Some params))) = []"
    and "fst (performApiSearch prov (Some params)) = Returns (Json payload) \<Longrightarrow>
         item \<in> set (p_items payload) \<Longrightarrow> i_details item = None"
proof -
  show "filter is_call (snd (performApiSearch prov (Some params))) = []"
    using assms by (auto simp: performApiSearch_def Let_def split: sum.splits option.splits list.splits)
  assume "fst (performApiSearch prov (Some params)) = Returns (Json payload)" "item \<in> set (p_items payload)"
  then show "i_details item = None"
    using assms base_payload_no_details
    by (auto simp: performApiSearch_def Let_def split: sum.splits option.splits list.splits if_splits)
qed

lemma ext_without_details:
  assumes "\<not> includeDetails_of params"
  shows "filter is_call (snd (AngelscriptMcpServer_performApiSearch client sched (Some params))) = []"
    and "fst (AngelscriptMcpServer_performApiSearch client sched (Some params)) = Returns (Json payload) \<Longrightarrow>
         item \<in> set (p_items payload) \<Longrightarrow> i_details item = None"
proof -
  show "filter is_call (snd (AngelscriptMcpServer_performApiSearch client sched (Some params))) = []"
    using assms
    by (auto simp: AngelscriptMcpServer_performApiSearch_def Let_def
        split: promise.splits option.splits list.splits)
  assume "fst (AngelscriptMcpServer_performApiSearch client sched (Some params)) = Returns (Json payload)"
    "item \<in> set (p_items payload)"
  then show "i_details item = None"
    using assms base_payload_no_details
    by (auto simp: AngelscriptMcpServer_performApiSearch_def Let_def
        split: promise.splits option.splits list.splits if_splits)
qed

text \<open>
  C7: every value of \<^verbatim>\<open>includeDetails\<close> other than the boolean
  false, absent and undefined included, makes either server behave exactly as the value
  true does. With the boolean false no detail request is made, whatever the provider
  returns, and no item of a returned payload has details.
\<close>

theorem include_details_flag:
  "(includeDetails params \<noteq> JBool False \<longrightarrow>
      includeDetails_of params
    \<and> performApiSearch prov (Some params) =
        performApiSearch prov (Some (params\<lparr>includeDetails := JBool True\<rparr>))
    \<and> AngelscriptMcpServer_performApiSearch client sched (Some params) =
        AngelscriptMcpServer_performApiSearch client sched (Some (params\<lparr>includeDetails := JBool True\<rparr>)))
   \<and> (includeDetails params = JBool False \<longrightarrow>
      filter is_call (snd (performApiSearch prov (Some params))) = []
    \<and> (\<forall>payload. fst (performApiSearch prov (Some params)) = Returns (Json payload) \<longrightarrow>
          (\<forall>item \<in> set (p_items payload). i_details item = None))
    \<and> filter is_call (snd (AngelscriptMcpServer_performApiSearch client sched (Some params))) = []
    \<and> (\<forall>payload. fst (AngelscriptMcpServer_performApiSearch client sched (Some params)) = Returns (Json payload) \<longrightarrow>
          (\<forall>item \<in> set (p_items payload). i_details item = None)))"
proof (intro conjI impI)
  assume t: "includeDetails params \<noteq> JBool False"
  then show "includeDetails_of params" by (simp add: includeDetails_of_def)
  then show "performApiSearch prov (Some params) =
        performApiSearch prov (Some (params\<lparr>includeDetails := JBool True\<rparr>))"
    by (auto simp: performApiSearch_def params_update_includeDetails Let_def
        split: sum.splits option.splits list.splits)
  from \<open>includeDetails_of params\<close>
  show "AngelscriptMcpServer_performApiSearch client sched (Some params) =
        AngelscriptMcpServer_performApiSearch client sched (Some (params\<lparr>includeDetails := JBool True\<rparr>))"
    by (auto simp: AngelscriptMcpServer_performApiSearch_def params_update_includeDetails Let_def
        split: promise.splits option.splits list.splits)
next
  assume "includeDetails params = JBool False"
  then have f: "\<not> includeDetails_of params" by (simp add: includeDetails_of_def)
  show "filter is_call (snd (performApiSearch prov (Some params))) = []"
    using f by (rule standalone_without_details(1))
  show "\<forall>payload. fst (performApiSearch prov (Some params)) = Returns (Json payload) \<longrightarrow>
          (\<forall>item \<in> set (p_items payload). i_details item = None)"
    using standalone_without_details(2) [OF f] by blast
  show "filter is_call (snd (AngelscriptMcpServer_performApiSearch client sched (Some params))) = []"
    using f by (rule ext_without_details(1))
  show "\<forall>payload. fst (AngelscriptMcpServer_performApiSearch client sched (Some params)) = Returns (Json payload) \<longrightarrow>
          (\<forall>item \<in> set (p_items payload). i_details item = None)"
    using ext_without_details(2) [OF f] by blast
qed

text \<open>
  An absent flag requests details; the flag false requests none and leaves three items
  without details.
\<close>

theorem include_details_witness:
  "includeDetails (example_params JUndefined JUndefined) \<noteq> JBool False
   \<and> performApiSearch (example_provider 3 True) (Some (example_params JUndefined JUndefined)) =
       performApiSearch (example_provider 3 True)
         (Some ((example_params JUndefined JUndefined)\<lparr>includeDetails := JBool True\<rparr>))
   \<and> filter is_call (snd (performApiSearch (example_provider 3 True)
         (Some (example_params JUndefined JUndefined)))) \<noteq> []
   \<and> includeDetails (example_params JUndefined (JBool False)) = JBool False
   \<and> filter is_call (snd (performApiSearch (example_provider 3 True)
         (Some (example_params JUndefined (JBool False))))) = []
   \<and> filter is_call (snd (AngelscriptMcpServer_performApiSearch (example_client 3) []
         (Some (example_params JUndefined (JBool False))))) = []
   \<and> fst (AngelscriptMcpServer_performApiSearch (example_client 3) []
         (Some (example_params JUndefined (JBool False)))) =
       Returns (Json (base_payload ''GetActor'' (JFin 500) (example_matches 3)))
   \<and> length (p_items (base_payload ''GetActor'' (JFin 500) (example_matches 3))) = 3
   \<and> list_all (\<lambda>item. i_details item = None)
        (p_items (base_payload ''GetActor'' (JFin 500) (example_matches 3)))"
proof -
  let ?p = "example_params JUndefined JUndefined"
  let ?f = "example_params JUndefined (JBool False)"
  let ?payload = "base_payload ''GetActor'' (JFin 500) (example_matches 3)"
  have h1: "includeDetails ?p \<noteq> JBool False" by (simp add: example_params_def)
  have h2: "includeDetails ?f = JBool False" by (simp add: example_params_def)
  have calls: "filter is_call (snd (performApiSearch (example_provider 3 True) (Some ?p))) \<noteq> []"
    by code_simp
  have ret: "fst (AngelscriptMcpServer_performApiSearch (example_client 3) [] (Some ?f)) =
      Returns (Json ?payload)"
    by code_simp
  have len: "length (p_items ?payload) = 3" by code_simp
  note t = include_details_flag [of ?p "example_provider 3 True" "example_client 3" "[]"]
  note f = include_details_flag [of ?f "example_provider 3 True" "example_client 3" "[]"]
  have c1: "performApiSearch (example_provider 3 True) (Some ?p) =
       performApiSearch (example_provider 3 True) (Some (?p\<lparr>includeDetails := JBool True\<rparr>))"
    using t h1 by blast
  have c2: "filter is_call (snd (performApiSearch (example_provider 3 True) (Some ?f))) = []"
    using f h2 by blast
  have c3: "filter is_call (snd (AngelscriptMcpServer_performApiSearch (example_client 3) [] (Some ?f))) = []"
    using f h2 by blast
  have "\<forall>item \<in> set (p_items ?payload). i_details item = None"
    using f h2 ret by blast
  then have c4: "list_all (\<lambda>item. i_details item = None) (p_items ?payload)"
    by (simp add: list_all_iff)
  show ?thesis using h1 h2 calls ret len c1 c2 c3 c4 by blast
qed



section \<open>Isolation of failures\<close>

lemma ext_can_return:
  assumes "query_of params \<noteq> []" "clientReady client = Fulfilled u"
    "searchResponse client (query_of params) = Fulfilled (Some results)" "results \<noteq> []"
    "includeDetails_of params"
  shows "\<exists>more. fst (AngelscriptMcpServer_performApiSearch client (sched @ more) (Some params)) =
     Returns (Json ((base_payload (query_of params) (limit_of params) results)
            \<lparr>p_items := enriched client (map base_item (slice0 results (limit_of params)))\<rparr>))"
proof (cases "slice0 results (limit_of params) = []")
  case True
  have "fst (AngelscriptMcpServer_performApiSearch client (sched @ []) (Some params)) =
     Returns (Json ((base_payload (query_of params) (limit_of params) results)
            \<lparr>p_items := enriched client (map base_item (slice0 results (limit_of params)))\<rparr>))"
    unfolding ext_search_result [OF assms(1-4)] using True assms(5)
    by (simp add: Let_def base_payload_items enriched_def)
  then show ?thesis by blast
next
  case False
  let ?items = "map base_item (slice0 results (limit_of params))"
  have "0 < length ?items" using False by simp
  from can_complete [OF this, of client sched] obtain more where
    "resolvedAll (settle_all client ?items (sched @ more))" by blast
  then have "fst (AngelscriptMcpServer_performApiSearch client (sched @ more) (Some params)) =
     Returns (Json ((base_payload (query_of params) (limit_of params) results)
            \<lparr>p_items := enriched client ?items\<rparr>))"
    unfolding ext_search_result [OF assms(1-4)] using False assms(5)
    by (simp add: Let_def base_payload_items)
  then show ?thesis by blast
qed

lemma ext_returned_events:
  assumes "query_of params \<noteq> []" "clientReady client = Fulfilled u"
    "searchResponse client (query_of params) = Fulfilled (Some results)" "results \<noteq> []"
    "includeDetails_of params"
    "fst (AngelscriptMcpServer_performApiSearch client sched (Some params)) = Returns r"
    "items = map base_item (slice0 results (limit_of params))"
  shows "filter is_call (snd (AngelscriptMcpServer_performApiSearch client sched (Some params))) =
           map (\<lambda>i. CallDetails i (i_data (items ! i))) [0..<length items]"
    and "i < length items \<Longrightarrow> detailsResponse client i (i_data (items ! i)) = Inl e \<Longrightarrow>
         ConsoleError (fetch_failed_msg (i_label (items ! i))) \<in>
           set (snd (AngelscriptMcpServer_performApiSearch client sched (Some params)))"
proof -
  note master = ext_search_result [OF assms(1-4), of sched]
  let ?s = "settle_all client items sched"
  show "filter is_call (snd (AngelscriptMcpServer_performApiSearch client sched (Some params))) =
           map (\<lambda>i. CallDetails i (i_data (items ! i))) [0..<length items]"
  proof (cases "items = []")
    case True
    then show ?thesis unfolding master using assms(5,7) by (simp add: Let_def base_payload_items)
  next
    case False
    then have inv: "all_inv client items ?s" by (simp add: settle_all_inv)
    have res: "resolvedAll ?s"
      using assms(5,6) False unfolding master assms(7)
      by (simp add: Let_def base_payload_items split: if_splits)
    have "nextIndex ?s = length items" using inv res by (simp add: all_inv_def sched_inv_def)
    then have "filter is_call (events ?s) = map (\<lambda>i. CallDetails i (i_data (items ! i))) [0..<length items]"
      using inv by (simp add: all_inv_def trace_inv_def)
    then show ?thesis
      unfolding master using assms(5) False res unfolding assms(7)
      by (simp add: Let_def base_payload_items)
  qed
  assume i: "i < length items" and fail: "detailsResponse client i (i_data (items ! i)) = Inl e"
  then have ne: "items \<noteq> []" by auto
  then have inv: "all_inv client items ?s" by (simp add: settle_all_inv)
  have res: "resolvedAll ?s"
    using assms(5,6) ne unfolding master assms(7)
    by (simp add: Let_def base_payload_items split: if_splits)
  have "fst ` set (allDetails ?s) = {0..<length items}"
    using resolved_all_details(1) [of client items ?s] inv res by (simp add: all_inv_def)
  then have "i \<in> fst ` set (allDetails ?s)" using i by simp
  then obtain p where p: "p \<in> set (allDetails ?s)" "fst p = i" by (auto simp: image_iff)
  then have "snd p = answer client items i" using inv by (auto simp: all_inv_def sched_inv_def)
  then have "snd p = None" using fail by (simp add: answer_def)
  then have "ConsoleError (fetch_failed_msg (i_label (items ! i))) \<in> set (events ?s)"
    using inv p unfolding all_inv_def trace_inv_def by blast
  then show "ConsoleError (fetch_failed_msg (i_label (items ! i))) \<in>
           set (snd (AngelscriptMcpServer_performApiSearch client sched (Some params)))"
    unfolding master using assms(5) ne res unfolding assms(7)
    by (simp add: Let_def base_payload_items)
qed

lemma enriched_details:
  assumes "i < length items"
  shows "detailsResponse client i (i_data (items ! i)) = Inl e \<Longrightarrow> i_details (enriched client items ! i) = None"
    and "detailsResponse client i (i_data (items ! i)) = Inr d \<Longrightarrow> i_details (enriched client items ! i) = Some d"
  using assms by (simp_all add: enriched_nth answer_def)

lemma concat_map_if:
  "concat (map (\<lambda>j. if P j then [g j] else []) xs) = map g (filter P xs)"
  by (induction xs) simp_all

lemma enrich_item_calls:
  "filter is_call (snd (enrich_item prov j item)) =
     (if truthy (i_data item) then [CallDetails j (i_data item)] else [])"
  by (simp add: enrich_item_def split: sum.splits)

lemma enrich_loop_calls:
  "filter is_call (snd (enrich_loop prov 0 items)) =
     map (\<lambda>i. CallDetails i (i_data (items ! i))) (filter (\<lambda>i. truthy (i_data (items ! i))) [0..<length items])"
  by (simp add: enrich_loop_events filter_concat o_def enrich_item_calls concat_map_if)

lemma enrich_loop_details:
  assumes "i < length items"
  shows "truthy (i_data (items ! i)) \<Longrightarrow> GetAPIDetails prov (i_data (items ! i)) = Inr (Some d) \<Longrightarrow>
           d \<noteq> [] \<Longrightarrow> i_details (fst (enrich_loop prov 0 items) ! i) = Some d"
    and "truthy (i_data (items ! i)) \<Longrightarrow> GetAPIDetails prov (i_data (items ! i)) = Inl e \<Longrightarrow>
           i_details (fst (enrich_loop prov 0 items) ! i) = i_details (items ! i)
           \<and> ConsoleError (fetch_failed_msg (i_label (items ! i))) \<in> set (snd (enrich_loop prov 0 items))"
    and "\<not> truthy (i_data (items ! i)) \<Longrightarrow>
           i_details (fst (enrich_loop prov 0 items) ! i) = i_details (items ! i)"
proof -
  show "truthy (i_data (items ! i)) \<Longrightarrow> GetAPIDetails prov (i_data (items ! i)) = Inr (Some d) \<Longrightarrow>
           d \<noteq> [] \<Longrightarrow> i_details (fst (enrich_loop prov 0 items) ! i) = Some d"
    using assms by (simp add: enrich_loop_nth enrich_item_def)
  show "\<not> truthy (i_data (items ! i)) \<Longrightarrow>
           i_details (fst (enrich_loop prov 0 items) ! i) = i_details (items ! i)"
    using assms by (simp add: enrich_loop_nth enrich_item_def)
  assume t: "truthy (i_data (items ! i))" and f: "GetAPIDetails prov (i_data (items ! i)) = Inl e"
  have "ConsoleError (fetch_failed_msg (i_label (items ! i))) \<in> set (snd (enrich_item prov (0 + i) (items ! i)))"
    using t f by (simp add: enrich_item_def)
  then have "ConsoleError (fetch_failed_msg (i_label (items ! i))) \<in> set (snd (enrich_loop prov 0 items))"
    unfolding enrich_loop_events using assms by force
  then show "i_details (fst (enrich_loop prov 0 items) ! i) = i_details (items ! i)
           \<and> ConsoleError (fetch_failed_msg (i_label (items ! i))) \<in> set (snd (enrich_loop prov 0 items))"
    using assms t f by (simp add: enrich_loop_nth enrich_item_def)
qed

lemma enrich_loop_no_text:
  assumes "i < length items"
    "GetAPIDetails prov (i_data (items ! i)) = Inr None \<or>
     GetAPIDetails prov (i_data (items ! i)) = Inr (Some [])"
  shows "i_details (fst (enrich_loop prov 0 items) ! i) = i_details (items ! i)"
  using assms by (auto simp: enrich_loop_nth enrich_item_def)

text \<open>
  C2, as stated, fails in the standalone server in two ways. For a match without data the
  loop skips the lookup, so a list of one item sees no detail call. And where exactly one
  of two lookups throws, the other item still lacks details when its own lookup succeeded
  with the empty text, which the loop does not assign.
\<close>

theorem fetch_every_index_counterexample:
  "fst (performApiSearch provider_without_data (Some (example_params JUndefined JUndefined))) =
     Returns (Json \<lparr>p_query = ''GetActor'', p_total = 1, p_returned = 1, p_truncated = False,
       p_items = [\<lparr>i_label = ''Actor'', i_type = JUndefined, i_data = JUndefined, i_details = None\<rparr>]\<rparr>)
   \<and> filter is_call (snd (performApiSearch provider_without_data
         (Some (example_params JUndefined JUndefined)))) = []
   \<and> GetAPIDetails (provider_with_empty_text 2) (JArr [JStr ''method'', JStr ''AActor'', JNum (JFin 0)]) =
       Inr (Some [])
   \<and> GetAPIDetails (provider_with_empty_text 2) (JArr [JStr ''method'', JStr ''AActor'', JNum (JFin 1)]) =
       Inl ''lookup failed''
   \<and> performApiSearch (provider_with_empty_text 2) (Some (example_params JUndefined JUndefined)) =
       (Returns (Json \<lparr>p_query = ''GetActor'', p_total = 2, p_returned = 2, p_truncated = False,
          p_items =
            [\<lparr>i_label = ''Actor'', i_type = JStr ''class'',
               i_data = JArr [JStr ''method'', JStr ''AActor'', JNum (JFin 0)], i_details = None\<rparr>,
             \<lparr>i_label = ''Actor'', i_type = JStr ''class'',
               i_data = JArr [JStr ''method'', JStr ''AActor'', JNum (JFin 1)], i_details = None\<rparr>]\<rparr>),
        [CallHasTypes, CallSearch ''GetActor'',
         CallDetails 0 (JArr [JStr ''method'', JStr ''AActor'', JNum (JFin 0)]),
         CallDetails 1 (JArr [JStr ''method'', JStr ''AActor'', JNum (JFin 1)]),
         ConsoleError ''Failed to fetch details for Actor:''])"
  by code_simp

text \<open>
  C2 (amended): in the extension-integrated server every run can be continued to one that
  returns, and a run that returns has sent exactly one detail request for every index, in
  index order, and returns the payload in which an item lacks details exactly when its own
  request failed and otherwise carries the text its own request delivered; every failure
  is logged with the label of its item. In the standalone server one lookup is made, in
  order, for every item whose data is truthy and none for the others; an item whose lookup
  throws lacks details and is logged with its label, an item whose lookup returns a
  non-empty text carries that text, an item whose lookup returns nothing or the empty text
  lacks details, and the call returns the payload.
\<close>

theorem single_failure_isolated:
  "query_of params \<noteq> [] \<and> results \<noteq> [] \<and> includeDetails_of params \<and>
   items = map base_item (slice0 results (limit_of params)) \<and>
   payload = base_payload (query_of params) (limit_of params) results \<longrightarrow>
     (clientReady client = Fulfilled u \<and>
      searchResponse client (query_of params) = Fulfilled (Some results) \<longrightarrow>
        (\<exists>more. fst (AngelscriptMcpServer_performApiSearch client (sched @ more) (Some params)) =
           Returns (Json (payload\<lparr>p_items := enriched client items\<rparr>)))
      \<and> (\<forall>r. fst (AngelscriptMcpServer_performApiSearch client sched (Some params)) = Returns r \<longrightarrow>
            r = Json (payload\<lparr>p_items := enriched client items\<rparr>)
          \<and> filter is_call (snd (AngelscriptMcpServer_performApiSearch client sched (Some params))) =
              map (\<lambda>i. CallDetails i (i_data (items ! i))) [0..<length items]
          \<and> (\<forall>i e. i < length items \<and> detailsResponse client i (i_data (items ! i)) = Inl e \<longrightarrow>
                ConsoleError (fetch_failed_msg (i_label (items ! i))) \<in>
                  set (snd (AngelscriptMcpServer_performApiSearch client sched (Some params)))))
      \<and> length (enriched client items) = length items
      \<and> (\<forall>i e. i < length items \<and> detailsResponse client i (i_data (items ! i)) = Inl e \<longrightarrow>
            i_details (enriched client items ! i) = None)
      \<and> (\<forall>i d. i < length items \<and> detailsResponse client i (i_data (items ! i)) = Inr d \<longrightarrow>
            i_details (enriched client items ! i) = Some d))
   \<and> (HasTypesFromUnreal prov \<and> GetAPISearch prov (query_of params) = Inr (Some results) \<longrightarrow>
        (\<exists>items' evs.
           performApiSearch prov (Some params) =
             (Returns (Json (payload\<lparr>p_items := items'\<rparr>)),
              [CallHasTypes, CallSearch (query_of params)] @ evs)
         \<and> length items' = length items
         \<and> filter is_call evs =
             map (\<lambda>i. CallDetails i (i_data (items ! i)))
               (filter (\<lambda>i. truthy (i_data (items ! i))) [0..<length items])
         \<and> (\<forall>i d. i < length items \<and> truthy (i_data (items ! i)) \<and>
               GetAPIDetails prov (i_data (items ! i)) = Inr (Some d) \<and> d \<noteq> [] \<longrightarrow>
               i_details (items' ! i) = Some d)
         \<and> (\<forall>i e. i < length items \<and> truthy (i_data (items ! i)) \<and>
               GetAPIDetails prov (i_data (items ! i)) = Inl e \<longrightarrow>
               i_details (items' ! i) = None \<and>
               ConsoleError (fetch_failed_msg (i_label (items ! i))) \<in> set evs)
         \<and> (\<forall>i. i < length items \<and> truthy (i_data (items ! i)) \<and>
               (GetAPIDetails prov (i_data (items ! i)) = Inr None \<or>
                GetAPIDetails prov (i_data (items ! i)) = Inr (Some [])) \<longrightarrow>
               i_details (items' ! i) = None)
         \<and> (\<forall>i. i < length items \<and> \<not> truthy (i_data (items ! i)) \<longrightarrow>
               i_details (items' ! i) = None)))"
proof (intro impI conjI)
  assume a: "query_of params \<noteq> [] \<and> results \<noteq> [] \<and> includeDetails_of params \<and>
   items = map base_item (slice0 results (limit_of params)) \<and>
   payload = base_payload (query_of params) (limit_of params) results"
  then have q: "query_of params \<noteq> []" and rs: "results \<noteq> []" and inc: "includeDetails_of params"
    and items: "items = map base_item (slice0 results (limit_of params))"
    and payload: "payload = base_payload (query_of params) (limit_of params) results"
    by auto
  have none: "i_details (items ! i) = None" if "i < length items" for i
    using that unfolding items by (simp add: base_item_def)
  {
    assume "clientReady client = Fulfilled u \<and>
      searchResponse client (query_of params) = Fulfilled (Some results)"
    then have h: "clientReady client = Fulfilled u"
      "searchResponse client (query_of params) = Fulfilled (Some results)" by auto
    show "\<exists>more. fst (AngelscriptMcpServer_performApiSearch client (sched @ more) (Some params)) =
           Returns (Json (payload\<lparr>p_items := enriched client items\<rparr>))"
      unfolding items payload using ext_can_return [OF q h rs inc] .
    show "\<forall>r. fst (AngelscriptMcpServer_performApiSearch client sched (Some params)) = Returns r \<longrightarrow>
            r = Json (payload\<lparr>p_items := enriched client items\<rparr>)
          \<and> filter is_call (snd (AngelscriptMcpServer_performApiSearch client sched (Some params))) =
              map (\<lambda>i. CallDetails i (i_data (items ! i))) [0..<length items]
          \<and> (\<forall>i e. i < length items \<and> detailsResponse client i (i_data (items ! i)) = Inl e \<longrightarrow>
                ConsoleError (fetch_failed_msg (i_label (items ! i))) \<in>
                  set (snd (AngelscriptMcpServer_performApiSearch client sched (Some params))))"
    proof (intro allI impI conjI)
      fix r
      assume r: "fst (AngelscriptMcpServer_performApiSearch client sched (Some params)) = Returns r"
      show "r = Json (payload\<lparr>p_items := enriched client items\<rparr>)"
        unfolding items payload using ext_returns [OF q h rs inc r] .
      show "filter is_call (snd (AngelscriptMcpServer_performApiSearch client sched (Some params))) =
              map (\<lambda>i. CallDetails i (i_data (items ! i))) [0..<length items]"
        using ext_returned_events(1) [OF q h rs inc r items] .
      fix i e
      assume "i < length items \<and> detailsResponse client i (i_data (items ! i)) = Inl e"
      then show "ConsoleError (fetch_failed_msg (i_label (items ! i))) \<in>
                  set (snd (AngelscriptMcpServer_performApiSearch client sched (Some params)))"
        using ext_returned_events(2) [OF q h rs inc r items] by blast
    qed
    show "length (enriched client items) = length items" by (simp add: enriched_nth)
    show "\<forall>i e. i < length items \<and> detailsResponse client i (i_data (items ! i)) = Inl e \<longrightarrow>
            i_details (enriched client items ! i) = None"
      using enriched_details(1) by blast
    show "\<forall>i d. i < length items \<and> detailsResponse client i (i_data (items ! i)) = Inr d \<longrightarrow>
            i_details (enriched client items ! i) = Some d"
      using enriched_details(2) by blast
  }
  {
    assume "HasTypesFromUnreal prov \<and> GetAPISearch prov (query_of params) = Inr (Some results)"
    then have h: "HasTypesFromUnreal prov" "GetAPISearch prov (query_of params) = Inr (Some results)"
      by auto
    let ?items' = "fst (enrich_loop prov 0 items)"
    let ?evs = "snd (enrich_loop prov 0 items)"
    have 1: "performApiSearch prov (Some params) =
             (Returns (Json (payload\<lparr>p_items := ?items'\<rparr>)),
              [CallHasTypes, CallSearch (query_of params)] @ ?evs)"
      unfolding standalone_search_result [OF q h rs] items payload using inc
      by (simp add: Let_def base_payload_items)
    have 2: "length ?items' = length items" by (rule enrich_loop_length)
    have 3: "filter is_call ?evs =
             map (\<lambda>i. CallDetails i (i_data (items ! i)))
               (filter (\<lambda>i. truthy (i_data (items ! i))) [0..<length items])"
      by (rule enrich_loop_calls)
    have 4: "\<forall>i d. i < length items \<and> truthy (i_data (items ! i)) \<and>
               GetAPIDetails prov (i_data (items ! i)) = Inr (Some d) \<and> d \<noteq> [] \<longrightarrow>
               i_details (?items' ! i) = Some d"
      using enrich_loop_details(1) by blast
    have 5: "\<forall>i e. i < length items \<and> truthy (i_data (items ! i)) \<and>
               GetAPIDetails prov (i_data (items ! i)) = Inl e \<longrightarrow>
               i_details (?items' ! i) = None \<and>
               ConsoleError (fetch_failed_msg (i_label (items ! i))) \<in> set ?evs"
      using enrich_loop_details(2) [of _ items prov] none by metis
    have 6: "\<forall>i. i < length items \<and> \<not> truthy (i_data (items ! i)) \<longrightarrow>
               i_details (?items' ! i) = None"
      using enrich_loop_details(3) [of _ items prov] none by metis
    have 7: "\<forall>i. i < length items \<and> truthy (i_data (items ! i)) \<and>
               (GetAPIDetails prov (i_data (items ! i)) = Inr None \<or>
                GetAPIDetails prov (i_data (items ! i)) = Inr (Some [])) \<longrightarrow>
               i_details (?items' ! i) = None"
      using enrich_loop_no_text [of _ items prov] none by metis
    show "\<exists>items' evs.
           performApiSearch prov (Some params) =
             (Returns (Json (payload\<lparr>p_items := items'\<rparr>)),
              [CallHasTypes, CallSearch (query_of params)] @ evs)
         \<and> length items' = length items
         \<and> filter is_call evs =
             map (\<lambda>i. CallDetails i (i_data (items ! i)))
               (filter (\<lambda>i. truthy (i_data (items ! i))) [0..<length items])
         \<and> (\<forall>i d. i < length items \<and> truthy (i_data (items ! i)) \<and>
               GetAPIDetails prov (i_data (items ! i)) = Inr (Some d) \<and> d \<noteq> [] \<longrightarrow>
               i_details (items' ! i) = Some d)
         \<and> (\<forall>i e. i < length items \<and> truthy (i_data (items ! i)) \<and>
               GetAPIDetails prov (i_data (items ! i)) = Inl e \<longrightarrow>
               i_details (items' ! i) = None \<and>
               ConsoleError (fetch_failed_msg (i_label (items ! i))) \<in> set evs)
         \<and> (\<forall>i. i < length items \<and> truthy (i_data (items ! i)) \<and>
               (GetAPIDetails prov (i_data (items ! i)) = Inr None \<or>
                GetAPIDetails prov (i_data (items ! i)) = Inr (Some [])) \<longrightarrow>
               i_details (items' ! i) = None)
         \<and> (\<forall>i. i < length items \<and> \<not> truthy (i_data (items ! i)) \<longrightarrow>
               i_details (items' ! i) = None)"
      using 1 2 3 4 5 6 7 by blast
  }
qed

text \<open>
  Three matches, the request for the second fails: that item alone lacks details, in
  both servers; and a standalone provider whose lookup for the first match returns the
  empty text leaves that item without details.
\<close>

theorem single_failure_witness:
  "query_of (example_params JUndefined JUndefined) \<noteq> []
   \<and> example_matches 3 \<noteq> []
   \<and> includeDetails_of (example_params JUndefined JUndefined)
   \<and> clientReady (example_client 3) = Fulfilled ()
   \<and> searchResponse (example_client 3) (query_of (example_params JUndefined JUndefined)) =
       Fulfilled (Some (example_matches 3))
   \<and> HasTypesFromUnreal (example_provider 3 True)
   \<and> GetAPISearch (example_provider 3 True) (query_of (example_params JUndefined JUndefined)) =
       Inr (Some (example_matches 3))
   \<and> detailsResponse (example_client 3) 1
       (i_data (map base_item (slice0 (example_matches 3) (limit_of (example_params JUndefined JUndefined))) ! 1)) =
       Inl ''timeout''
   \<and> detailsResponse (example_client 3) 2
       (i_data (map base_item (slice0 (example_matches 3) (limit_of (example_params JUndefined JUndefined))) ! 2)) =
       Inr ''doc''
   \<and> fst (AngelscriptMcpServer_performApiSearch (example_client 3)
         [Settle 2, Settle 1, Settle 0, Finalize 1, Finalize 2, Finalize 0]
         (Some (example_params JUndefined JUndefined))) =
       Returns (Json ((base_payload (query_of (example_params JUndefined JUndefined))
           (limit_of (example_params JUndefined JUndefined)) (example_matches 3))
         \<lparr>p_items := enriched (example_client 3)
            (map base_item (slice0 (example_matches 3) (limit_of (example_params JUndefined JUndefined))))\<rparr>))
   \<and> filter is_call (snd (AngelscriptMcpServer_performApiSearch (example_client 3)
         [Settle 2, Settle 1, Settle 0, Finalize 1, Finalize 2, Finalize 0]
         (Some (example_params JUndefined JUndefined)))) =
       [CallDetails 0 (JArr [JStr ''method'', JStr ''AActor'', JNum (JFin 0)]), CallDetails 1 (JArr [JStr ''method'', JStr ''AActor'', JNum (JFin 1)]),
        CallDetails 2 (JArr [JStr ''method'', JStr ''AActor'', JNum (JFin 2)])]
   \<and> ConsoleError ''Failed to fetch details for Actor:'' \<in>
       set (snd (AngelscriptMcpServer_performApiSearch (example_client 3)
         [Settle 2, Settle 1, Settle 0, Finalize 1, Finalize 2, Finalize 0]
         (Some (example_params JUndefined JUndefined))))
   \<and> i_details (enriched (example_client 3)
        (map base_item (slice0 (example_matches 3) (limit_of (example_params JUndefined JUndefined)))) ! 1) = None
   \<and> i_details (enriched (example_client 3)
        (map base_item (slice0 (example_matches 3) (limit_of (example_params JUndefined JUndefined)))) ! 2) = Some ''doc''
   \<and> (\<exists>items' evs.
         performApiSearch (example_provider 3 True) (Some (example_params JUndefined JUndefined)) =
           (Returns (Json ((base_payload (query_of (example_params JUndefined JUndefined))
               (limit_of (example_params JUndefined JUndefined)) (example_matches 3))\<lparr>p_items := items'\<rparr>)),
            [CallHasTypes, CallSearch (query_of (example_params JUndefined JUndefined))] @ evs)
       \<and> length items' = 3
       \<and> i_details (items' ! 1) = None
       \<and> i_details (items' ! 2) = Some ''doc'')
   \<and> truthy (i_data (map base_item (slice0 (example_matches 3) (limit_of (example_params JUndefined JUndefined))) ! 0))
   \<and> GetAPIDetails (provider_with_empty_text 3)
       (i_data (map base_item (slice0 (example_matches 3) (limit_of (example_params JUndefined JUndefined))) ! 0)) =
       Inr (Some [])
   \<and> (\<exists>items' evs.
         performApiSearch (provider_with_empty_text 3) (Some (example_params JUndefined JUndefined)) =
           (Returns (Json ((base_payload (query_of (example_params JUndefined JUndefined))
               (limit_of (example_params JUndefined JUndefined)) (example_matches 3))\<lparr>p_items := items'\<rparr>)),
            [CallHasTypes, CallSearch (query_of (example_params JUndefined JUndefined))] @ evs)
       \<and> i_details (items' ! 0) = None)"
proof -
  let ?p = "example_params JUndefined JUndefined"
  let ?c = "example_client 3"
  let ?v = "example_provider 3 True"
  let ?s = "[Settle 2, Settle 1, Settle 0, Finalize 1, Finalize 2, Finalize 0]"
  let ?items = "map base_item (slice0 (example_matches 3) (limit_of ?p))"
  let ?payload = "base_payload (query_of ?p) (limit_of ?p) (example_matches 3)"
  have h1: "query_of ?p \<noteq> []" by code_simp
  have h2: "example_matches 3 \<noteq> []" by code_simp
  have h3: "includeDetails_of ?p" by code_simp
  have h4: "clientReady ?c = Fulfilled ()" by (simp add: example_client_def)
  have h5: "searchResponse ?c (query_of ?p) = Fulfilled (Some (example_matches 3))"
    by (simp add: example_client_def)
  have h6: "HasTypesFromUnreal ?v" by (simp add: example_provider_def)
  have h7: "GetAPISearch ?v (query_of ?p) = Inr (Some (example_matches 3))"
    by (simp add: example_provider_def)
  have len: "length ?items = 3" by code_simp
  have d1: "detailsResponse ?c 1 (i_data (?items ! 1)) = Inl ''timeout''" by (simp add: example_client_def)
  have d2: "detailsResponse ?c 2 (i_data (?items ! 2)) = Inr ''doc''" by (simp add: example_client_def)
  have t1: "truthy (i_data (?items ! 1))" "truthy (i_data (?items ! 2))" by code_simp+
  have g1: "GetAPIDetails ?v (i_data (?items ! 1)) = Inl ''lookup failed''" by code_simp
  have g2: "GetAPIDetails ?v (i_data (?items ! 2)) = Inr (Some ''doc'')" by code_simp
  have lbl: "fetch_failed_msg (i_label (?items ! 1)) = ''Failed to fetch details for Actor:''" by code_simp
  have calls: "map (\<lambda>i. CallDetails i (i_data (?items ! i))) [0..<length ?items] =
       [CallDetails 0 (JArr [JStr ''method'', JStr ''AActor'', JNum (JFin 0)]), CallDetails 1 (JArr [JStr ''method'', JStr ''AActor'', JNum (JFin 1)]),
        CallDetails 2 (JArr [JStr ''method'', JStr ''AActor'', JNum (JFin 2)])]"
    by code_simp
  have ret: "fst (AngelscriptMcpServer_performApiSearch ?c ?s (Some ?p)) \<noteq> Suspends
      \<and> fst (AngelscriptMcpServer_performApiSearch ?c ?s (Some ?p)) \<noteq> Throws params_undefined"
    by code_simp
  then obtain r where r: "fst (AngelscriptMcpServer_performApiSearch ?c ?s (Some ?p)) = Returns r"
    by (cases "fst (AngelscriptMcpServer_performApiSearch ?c ?s (Some ?p))")
       (auto simp: AngelscriptMcpServer_performApiSearch_def Let_def
          split: option.splits promise.splits list.splits if_splits prod.splits)
  note inst = single_failure_isolated [of ?p "example_matches 3" ?items ?payload ?c "()" ?s ?v]
  have pre: "query_of ?p \<noteq> [] \<and> example_matches 3 \<noteq> [] \<and> includeDetails_of ?p \<and>
     ?items = ?items \<and> ?payload = ?payload"
    using h1 h2 h3 by simp
  note both = inst [rule_format, OF pre]
  note ext = both [THEN conjunct1, rule_format, OF conjI [OF h4 h5]]
  note alone = both [THEN conjunct2, rule_format, OF conjI [OF h6 h7]]
  have e2: "r = Json (?payload\<lparr>p_items := enriched ?c ?items\<rparr>)"
    "filter is_call (snd (AngelscriptMcpServer_performApiSearch ?c ?s (Some ?p))) =
       map (\<lambda>i. CallDetails i (i_data (?items ! i))) [0..<length ?items]"
    "ConsoleError (fetch_failed_msg (i_label (?items ! 1))) \<in>
       set (snd (AngelscriptMcpServer_performApiSearch ?c ?s (Some ?p)))"
    using ext r d1 len by auto
  have e3: "i_details (enriched ?c ?items ! 1) = None" "i_details (enriched ?c ?items ! 2) = Some ''doc''"
    using ext d1 d2 len by auto
  from alone obtain items' evs where a:
    "performApiSearch ?v (Some ?p) =
       (Returns (Json (?payload\<lparr>p_items := items'\<rparr>)), [CallHasTypes, CallSearch (query_of ?p)] @ evs)"
    "length items' = length ?items"
    "\<forall>i d. i < length ?items \<and> truthy (i_data (?items ! i)) \<and>
        GetAPIDetails ?v (i_data (?items ! i)) = Inr (Some d) \<and> d \<noteq> [] \<longrightarrow> i_details (items' ! i) = Some d"
    "\<forall>i e. i < length ?items \<and> truthy (i_data (?items ! i)) \<and>
        GetAPIDetails ?v (i_data (?items ! i)) = Inl e \<longrightarrow>
        i_details (items' ! i) = None \<and> ConsoleError (fetch_failed_msg (i_label (?items ! i))) \<in> set evs"
    by blast
  have a1: "i_details (items' ! 1) = None" using a(4) t1(1) g1 len by auto
  have a2: "i_details (items' ! 2) = Some ''doc''" using a(3) t1(2) g2 len by auto
  have alone': "\<exists>items' evs.
         performApiSearch ?v (Some ?p) =
           (Returns (Json (?payload\<lparr>p_items := items'\<rparr>)), [CallHasTypes, CallSearch (query_of ?p)] @ evs)
       \<and> length items' = 3 \<and> i_details (items' ! 1) = None \<and> i_details (items' ! 2) = Some ''doc''"
    using a(1,2) a1 a2 len by auto
  let ?w = "provider_with_empty_text 3"
  have k6: "HasTypesFromUnreal ?w" by (simp add: provider_with_empty_text_def)
  have k7: "GetAPISearch ?w (query_of ?p) = Inr (Some (example_matches 3))"
    by (simp add: provider_with_empty_text_def)
  have t0: "truthy (i_data (?items ! 0))" by code_simp
  have g0: "GetAPIDetails ?w (i_data (?items ! 0)) = Inr (Some [])" by code_simp
  note inst2 = single_failure_isolated [of ?p "example_matches 3" ?items ?payload ?c "()" ?s ?w]
  note alone2 = inst2 [rule_format, OF pre, THEN conjunct2, rule_format, OF conjI [OF k6 k7]]
  from alone2 obtain items2 evs2 where b:
    "performApiSearch ?w (Some ?p) =
       (Returns (Json (?payload\<lparr>p_items := items2\<rparr>)), [CallHasTypes, CallSearch (query_of ?p)] @ evs2)"
    "\<forall>i. i < length ?items \<and> truthy (i_data (?items ! i)) \<and>
        (GetAPIDetails ?w (i_data (?items ! i)) = Inr None \<or>
         GetAPIDetails ?w (i_data (?items ! i)) = Inr (Some [])) \<longrightarrow> i_details (items2 ! i) = None"
    by blast
  have b0: "i_details (items2 ! 0) = None" using b(2) t0 g0 len by auto
  have empty: "\<exists>items' evs.
         performApiSearch ?w (Some ?p) =
           (Returns (Json (?payload\<lparr>p_items := items'\<rparr>)), [CallHasTypes, CallSearch (query_of ?p)] @ evs)
       \<and> i_details (items' ! 0) = None"
    using b(1) b0 by auto
  show ?thesis
    using h1 h2 h3 h4 h5 h6 h7 d1 d2 r [unfolded e2(1)] e2(2) [unfolded calls] e2(3) [unfolded lbl] e3 alone'
      t0 g0 empty
    by (intro conjI)
qed

end
